theory Spec2Isabelle
  imports Main "HOL-Library.Word" "HOL-Library.Signed_Division"
begin

unbundle bit_operations_syntax

section \<open>Machine types and constants\<close>

text \<open>
  The file system runs on 32-bit x86: \<open>block_sector_t\<close> and \<open>size_t\<close> are unsigned 32-bit
  integers (arithmetic wraps), \<open>off_t\<close> and \<open>int\<close> are signed 32-bit integers. Unsigned values
  are \<open>32 word\<close>. A signed value is modelled by the integer it denotes; C leaves signed
  overflow undefined, and the model computes on the integers without wrapping: it follows
  the source for byte lengths up to 2147483136, where \<open>size + 511\<close> stays a 32-bit \<open>int\<close>.
  A sector is a list of bytes; an index sector is the same bytes read as 128 little-endian
  words.
\<close>

type_synonym block_sector_t = "32 word"
type_synonym size_t = "32 word"
type_synonym off_t = int
type_synonym sector_data = "8 word list"

text \<open>
  Modelled from the spec: the constant \<open>BLOCK_SECTOR_SIZE\<close> of the block device header,
  which is not among the sources. The on-disk inode (14 + 2 + 112 words) must fill one
  sector, and \<open>inode_resize\<close> clears its index buffers with \<open>memset (buffer, 0, 512)\<close>.
\<close>

definition BLOCK_SECTOR_SIZE :: int where
  "BLOCK_SECTOR_SIZE = 512"

text \<open>
  Modelled from the spec: the macro \<open>DIV_ROUND_UP\<close> of the rounding header, which is not
  among the sources: division rounding up, computed as C does, with a quotient truncated
  towards zero.
\<close>

definition DIV_ROUND_UP :: "int \<Rightarrow> int \<Rightarrow> int" where
  "DIV_ROUND_UP x step = (x + step - 1) sdiv step"

text \<open>
  Where the source leaves the defined behaviour of C, the model stops with an error:
  \<open>OutOfBounds\<close> for an array read outside the array, \<open>Uninitialised\<close> for the use of a
  pointer that was never assigned, \<open>AssertFailed\<close> for an \<open>ASSERT\<close> that fails.
\<close>

datatype error = OutOfBounds | Uninitialised | AssertFailed

section \<open>Sector counts\<close>

definition bytes_to_sectors :: "off_t \<Rightarrow> size_t" where
  "bytes_to_sectors sz = word_of_int (DIV_ROUND_UP sz BLOCK_SECTOR_SIZE)"

definition bytes_to_blocks :: "off_t \<Rightarrow> size_t" where
  "bytes_to_blocks sz =
     (let data_num = bytes_to_sectors sz in
      if data_num \<le> 12 then data_num + 1
      else if data_num \<le> 128 + 12 then data_num + 2
      else data_num + (data_num - 140) div 128 + 3)"

text \<open>
  The block count as the specification words it: the data sectors, the metadata sector, the
  single-indirect index sector above 12 data sectors, and above 140 the double-indirect index
  sector with one second-level index sector for every 128 data sectors begun.
\<close>

definition block_count_spec :: "nat \<Rightarrow> nat" where
  "block_count_spec L =
     (let data_sectors = (L + 511) div 512 in
      if data_sectors \<le> 12 then data_sectors + 1
      else if data_sectors \<le> 140 then data_sectors + 2
      else data_sectors + 3 + (data_sectors - 140 + 127) div 128)"

section \<open>Sector contents\<close>

text \<open>
  The source passes index tables and the on-disk inode to the cache as untyped buffers. On
  x86 a 32-bit word lies in memory with its least significant byte first: \<open>words_of\<close> reads
  a buffer of bytes as an array of words, \<open>bytes_of\<close> is the array of words as bytes.
\<close>

definition le32 :: "8 word \<Rightarrow> 8 word \<Rightarrow> 8 word \<Rightarrow> 8 word \<Rightarrow> 32 word" where
  "le32 a b c d = ucast a OR push_bit 8 (ucast b) OR push_bit 16 (ucast c) OR push_bit 24 (ucast d)"

definition bytes32 :: "32 word \<Rightarrow> 8 word list" where
  "bytes32 w = [ucast w, ucast (drop_bit 8 w), ucast (drop_bit 16 w), ucast (drop_bit 24 w)]"

fun words_of :: "8 word list \<Rightarrow> 32 word list" where
  "words_of (a # b # c # d # rest) = le32 a b c d # words_of rest"
| "words_of _ = []"

fun bytes_of :: "32 word list \<Rightarrow> 8 word list" where
  "bytes_of [] = []"
| "bytes_of (w # ws) = bytes32 w @ bytes_of ws"

definition zeros :: sector_data where
  "zeros = replicate 512 0"

record inode_disk =
  direct :: "block_sector_t list"
  indirect :: block_sector_t
  indirect_double :: block_sector_t
  length_d :: off_t
  magic :: "32 word"
  unused :: "32 word list"

definition INODE_MAGIC :: "32 word" where
  "INODE_MAGIC = 0x494e4f44"

text \<open>
  The layout of \<open>struct inode_disk\<close> in its sector: the words 0 to 11 are the direct
  pointers, then come the single-indirect pointer, the double-indirect pointer, the length
  and the magic number, and 112 unused words.
\<close>

definition inode_disk_of :: "sector_data \<Rightarrow> inode_disk" where
  "inode_disk_of c =
     (let ws = words_of c in
      \<lparr>direct = take 12 ws, indirect = ws ! 12, indirect_double = ws ! 13,
       length_d = sint (ws ! 14), magic = ws ! 15, unused = drop 16 ws\<rparr>)"

definition bytes_of_inode_disk :: "inode_disk \<Rightarrow> sector_data" where
  "bytes_of_inode_disk m =
     bytes_of (direct m @ [indirect m, indirect_double m, word_of_int (length_d m), magic m]
               @ unused m)"

text \<open>The in-memory inode, without its list element and its lock.\<close>

record inode =
  sector :: block_sector_t
  open_cnt :: int
  removed :: bool
  deny_write_cnt :: int

section \<open>Block cache\<close>

record cache_block =
  content :: sector_data
  is_dirty :: bool
  is_valid :: bool
  bst :: block_sector_t
  hit_cnt :: int
  miss_cnt :: int

text \<open>
  The state of the file system: the recency-ordered list of cache blocks, the block device
  and the free map. The locks are left out: the model runs one thread.
\<close>

record fs_state =
  cache :: "cache_block list"
  fs_device :: "block_sector_t \<Rightarrow> sector_data"
  free_map :: "block_sector_t list"

text \<open>
  Modelled from the spec: the block device, which is not among the sources. It reads and
  writes whole sectors and buffers nothing: a map from sector numbers to contents.
\<close>

definition block_read :: "fs_state \<Rightarrow> block_sector_t \<Rightarrow> sector_data" where
  "block_read s sec = fs_device s sec"

definition block_write :: "block_sector_t \<Rightarrow> sector_data \<Rightarrow> fs_state \<Rightarrow> fs_state" where
  "block_write sec c s = s\<lparr>fs_device := (fs_device s)(sec := c)\<rparr>"

text \<open>
  Modelled from the spec: the free-space allocator, which is not among the sources. Its
  state is the list of the free sector numbers. A batch request returns that many sectors,
  not necessarily contiguous, or fails and grants none.
\<close>

definition free_map_allocate_non_consecutive ::
    "size_t \<Rightarrow> fs_state \<Rightarrow> (block_sector_t list \<times> fs_state) option" where
  "free_map_allocate_non_consecutive cnt s =
     (if unat cnt \<le> length (free_map s)
      then Some (take (unat cnt) (free_map s), s\<lparr>free_map := drop (unat cnt) (free_map s)\<rparr>)
      else None)"

text \<open>
  Modelled from the spec: the release of one sector to the allocator
  (\<open>free_map_release (sector, 1)\<close>), which is not among the sources.
\<close>

definition free_map_release :: "block_sector_t \<Rightarrow> fs_state \<Rightarrow> fs_state" where
  "free_map_release sec s = s\<lparr>free_map := sec # free_map s\<rparr>"

definition new_cache_block :: cache_block where
  "new_cache_block =
     \<lparr>content = replicate 512 0, is_dirty = False, is_valid = False, bst = 0,
      hit_cnt = 0, miss_cnt = 0\<rparr>"

definition cache_init :: "cache_block list" where
  "cache_init = replicate 64 new_cache_block"

text \<open>
  The search loop of \<open>find_block_and_acq_lock\<close>: \<open>e\<close> walks the list while nothing has
  matched, \<open>b\<close> is the block looked at last (here its position), and \<open>not_found\<close> falls when
  that block is valid and holds the sector. On an empty list \<open>b\<close> is never assigned.
\<close>

fun scan_loop ::
    "block_sector_t \<Rightarrow> cache_block list \<Rightarrow> nat \<Rightarrow> nat option \<Rightarrow> bool \<Rightarrow> nat option \<times> bool" where
  "scan_loop sec [] i b not_found = (b, not_found)"
| "scan_loop sec (x # xs) i b not_found =
     (if not_found
      then scan_loop sec xs (Suc i) (Some i) (\<not> (is_valid x \<and> bst x = sec))
      else (b, not_found))"

text \<open>
  The block found is moved to the front of the list; the caller gets it as the head of the
  cache in the state returned.
\<close>

definition find_block_and_acq_lock ::
    "block_sector_t \<Rightarrow> bool \<Rightarrow> fs_state \<Rightarrow> error + fs_state" where
  "find_block_and_acq_lock sec reader s =
     (case scan_loop sec (cache s) 0 None True of
        (None, _) \<Rightarrow> Inl Uninitialised
      | (Some i, not_found) \<Rightarrow>
          (let b = cache s ! i;
               rest = take i (cache s) @ drop (Suc i) (cache s)
           in if not_found
              then (let b1 = b\<lparr>miss_cnt := miss_cnt b + 1\<rparr>;
                        s1 = (if is_valid b1 \<and> is_dirty b1
                              then block_write (bst b1) (content b1) s else s);
                        b2 = b1\<lparr>bst := sec\<rparr>;
                        b3 = b2\<lparr>content := block_read s1 sec\<rparr>;
                        b4 = b3\<lparr>is_valid := True, is_dirty := False\<rparr>
                    in Inr (s1\<lparr>cache := b4 # rest\<rparr>))
              else Inr (s\<lparr>cache := b\<lparr>hit_cnt := hit_cnt b + 1\<rparr> # rest\<rparr>)))"

definition cache_read :: "block_sector_t \<Rightarrow> fs_state \<Rightarrow> error + (sector_data \<times> fs_state)" where
  "cache_read sec s =
     (case find_block_and_acq_lock sec True s of
        Inl e \<Rightarrow> Inl e
      | Inr s1 \<Rightarrow> Inr (content (hd (cache s1)), s1))"

definition cache_write :: "sector_data \<Rightarrow> block_sector_t \<Rightarrow> fs_state \<Rightarrow> error + fs_state" where
  "cache_write src sec s =
     (case find_block_and_acq_lock sec False s of
        Inl e \<Rightarrow> Inl e
      | Inr s1 \<Rightarrow>
          Inr (s1\<lparr>cache := (hd (cache s1))\<lparr>content := src, is_dirty := True\<rparr> # tl (cache s1)\<rparr>))"

section \<open>Address translation\<close>

text \<open>
  A read of a C array: inside the array it gives the element, outside it is an error of the
  model (the source reads whatever lies beside the array).
\<close>

definition array_get :: "'a list \<Rightarrow> nat \<Rightarrow> error + 'a" where
  "array_get xs i = (if i < length xs then Inr (xs ! i) else Inl OutOfBounds)"

text \<open>
  \<open>byte_to_sector\<close>. The source passes the null pointer \<open>inode_content\<close> as the destination
  of \<open>cache_read\<close> and then reads the metadata through it; the model reads the metadata
  from the bytes that \<open>cache_read\<close> delivers. The index expressions are those of the source,
  computed in \<open>size_t\<close>.
\<close>

definition byte_to_sector ::
    "inode \<Rightarrow> off_t \<Rightarrow> fs_state \<Rightarrow> error + (block_sector_t \<times> fs_state)" where
  "byte_to_sector inode pos s =
     (let sector_num = bytes_to_sectors pos in
      case cache_read (sector inode) s of
        Inl e \<Rightarrow> Inl e
      | Inr (c, s1) \<Rightarrow>
          (let inode_content = inode_disk_of c in
           if sector_num \<le> 12
           then (case array_get (direct inode_content) (unat (sector_num - 1)) of
                   Inl e \<Rightarrow> Inl e
                 | Inr r \<Rightarrow> Inr (r, s1))
           else if sector_num \<le> 140
           then (let sector_num = sector_num - 12 in
                 case cache_read (indirect inode_content) s1 of
                   Inl e \<Rightarrow> Inl e
                 | Inr (c1, s2) \<Rightarrow>
                     (case array_get (words_of c1) (unat (sector_num - 1)) of
                        Inl e \<Rightarrow> Inl e
                      | Inr r \<Rightarrow> Inr (r, s2)))
           else (let sector_num = sector_num - 140 in
                 case cache_read (indirect_double inode_content) s1 of
                   Inl e \<Rightarrow> Inl e
                 | Inr (c2, s2) \<Rightarrow>
                     (case array_get (words_of c2) (unat (sector_num div 128)) of
                        Inl e \<Rightarrow> Inl e
                      | Inr t \<Rightarrow>
                          (case cache_read t s2 of
                             Inl e \<Rightarrow> Inl e
                           | Inr (c1, s3) \<Rightarrow>
                               (case array_get (words_of c1) (unat (sector_num mod 128 - 1)) of
                                  Inl e \<Rightarrow> Inl e
                                | Inr r \<Rightarrow> Inr (r, s3)))))))"

text \<open>
  The translation as the specification words it, on decoded metadata and a zero-based sector
  index: the slot that holds the sector of byte \<open>pos\<close>, given the single-indirect table
  \<open>t1\<close> and the second-level tables (\<open>t3 k\<close> is the table that entry \<open>k\<close> of the
  double-indirect table names).
\<close>

definition translate_spec ::
    "inode_disk \<Rightarrow> block_sector_t list \<Rightarrow> (nat \<Rightarrow> block_sector_t list) \<Rightarrow> nat \<Rightarrow> block_sector_t" where
  "translate_spec m t1 t3 pos =
     (let idx = pos div 512 in
      if idx < 12 then direct m ! idx
      else if idx < 140 then t1 ! (idx - 12)
      else t3 ((idx - 140) div 128) ! ((idx - 140) mod 128))"

text \<open>
  \<open>inode_length\<close> reads the metadata as \<open>byte_to_sector\<close> does, through a null
  destination in the source and from the bytes delivered in the model.
\<close>

definition inode_length :: "inode \<Rightarrow> fs_state \<Rightarrow> error + (off_t \<times> fs_state)" where
  "inode_length inode s =
     (case cache_read (sector inode) s of
        Inl e \<Rightarrow> Inl e
      | Inr (c, s1) \<Rightarrow> Inr (length_d (inode_disk_of c), s1))"

section \<open>Resize\<close>

text \<open>A counted \<open>for\<close> loop whose body may fail: the body runs for each index in turn.\<close>

fun for_loop :: "(nat \<Rightarrow> 'st \<Rightarrow> error + 'st) \<Rightarrow> nat list \<Rightarrow> 'st \<Rightarrow> error + 'st" where
  "for_loop body [] st = Inr st"
| "for_loop body (i # is) st =
     (case body i st of Inl e \<Rightarrow> Inl e | Inr st' \<Rightarrow> for_loop body is st')"

text \<open>
  The number of sectors \<open>inode_resize\<close> asks the allocator for. The subtraction and the
  comparison with zero are unsigned.
\<close>

definition new_alloc_num :: "size_t \<Rightarrow> size_t \<Rightarrow> size_t" where
  "new_alloc_num num_block_new num_block_old =
     (if num_block_new - num_block_old > 0 then num_block_new - num_block_old else 0)"

text \<open>
  The loop over the direct pointers. The state of the loop is the metadata, the index
  \<open>new_list_i\<close> into the batch and the file system. The sector zero-filled on growth is
  \<open>new_block_list[i]\<close>, as the source has it.
\<close>

definition direct_step ::
    "off_t \<Rightarrow> block_sector_t list \<Rightarrow> nat \<Rightarrow> inode_disk \<times> nat \<times> fs_state
     \<Rightarrow> error + (inode_disk \<times> nat \<times> fs_state)" where
  "direct_step sz new_block_list i st =
     (case st of (ind_d, new_list_i, s) \<Rightarrow>
        if sz \<le> BLOCK_SECTOR_SIZE * int i \<and> direct ind_d ! i \<noteq> 0
        then Inr (ind_d\<lparr>direct := (direct ind_d)[i := 0]\<rparr>, new_list_i,
                  free_map_release (direct ind_d ! i) s)
        else if sz > BLOCK_SECTOR_SIZE * int i \<and> direct ind_d ! i = 0
        then (case array_get new_block_list new_list_i of
                Inl e \<Rightarrow> Inl e
              | Inr v \<Rightarrow>
                  (case array_get new_block_list i of
                     Inl e \<Rightarrow> Inl e
                   | Inr z \<Rightarrow>
                       (case cache_write zeros z s of
                          Inl e \<Rightarrow> Inl e
                        | Inr s' \<Rightarrow>
                            Inr (ind_d\<lparr>direct := (direct ind_d)[i := v]\<rparr>, new_list_i + 1, s'))))
        else Inr st)"

text \<open>
  The loops over an index table: \<open>base\<close> is the zero-based number of the data sector that
  entry 0 addresses (12 for the single-indirect table, \<open>140 + i * 128\<close> for the second-level
  table \<open>i\<close>).
\<close>

definition table_step ::
    "off_t \<Rightarrow> block_sector_t list \<Rightarrow> nat \<Rightarrow> nat \<Rightarrow> block_sector_t list \<times> nat \<times> fs_state
     \<Rightarrow> error + (block_sector_t list \<times> nat \<times> fs_state)" where
  "table_step sz new_block_list base i st =
     (case st of (buffer, new_list_i, s) \<Rightarrow>
        if sz \<le> int (base + i) * BLOCK_SECTOR_SIZE \<and> buffer ! i \<noteq> 0
        then Inr (buffer[i := 0], new_list_i, free_map_release (buffer ! i) s)
        else if sz > int (base + i) * BLOCK_SECTOR_SIZE \<and> buffer ! i = 0
        then (case array_get new_block_list new_list_i of
                Inl e \<Rightarrow> Inl e
              | Inr v \<Rightarrow> Inr (buffer[i := v], new_list_i + 1, s))
        else Inr st)"

definition double_step ::
    "off_t \<Rightarrow> block_sector_t list \<Rightarrow> nat \<Rightarrow> block_sector_t list \<times> nat \<times> fs_state
     \<Rightarrow> error + (block_sector_t list \<times> nat \<times> fs_state)" where
  "double_step sz new_block_list i st =
     (case st of (buffer1, new_list_i, s) \<Rightarrow>
        if sz \<le> int (140 + i) * BLOCK_SECTOR_SIZE \<and> buffer1 ! i \<noteq> 0
        then Inr (buffer1[i := 0], new_list_i, free_map_release (buffer1 ! i) s)
        else if sz > int (140 + i) * BLOCK_SECTOR_SIZE
        then (case (if buffer1 ! i = 0
                    then (case array_get new_block_list new_list_i of
                            Inl e \<Rightarrow> Inl e
                          | Inr v \<Rightarrow> Inr (buffer1[i := v], replicate 128 0, new_list_i + 1, s))
                    else (case cache_read (buffer1 ! i) s of
                            Inl e \<Rightarrow> Inl e
                          | Inr (c, s') \<Rightarrow> Inr (buffer1, words_of c, new_list_i, s'))) of
                Inl e \<Rightarrow> Inl e
              | Inr (buffer1', buffer2, new_list_i', s1) \<Rightarrow>
                  (case for_loop (table_step sz new_block_list (140 + i * 128)) [0..<128]
                          (buffer2, new_list_i', s1) of
                     Inl e \<Rightarrow> Inl e
                   | Inr (buffer2', new_list_i'', s2) \<Rightarrow>
                       (case cache_write (bytes_of buffer2') (buffer1' ! i) s2 of
                          Inl e \<Rightarrow> Inl e
                        | Inr s3 \<Rightarrow> Inr (buffer1', new_list_i'', s3))))
        else Inr st)"

text \<open>
  The part of \<open>inode_resize\<close> that handles the single-indirect pointer: the index sector
  is created or read, its 128 entries are walked, and it is written back.
\<close>

definition resize_indirect ::
    "off_t \<Rightarrow> block_sector_t list \<Rightarrow> inode_disk \<times> nat \<times> fs_state
     \<Rightarrow> error + (inode_disk \<times> nat \<times> fs_state)" where
  "resize_indirect sz new_block_list st =
     (case st of (ind_d, new_list_i, s) \<Rightarrow>
        (case (if indirect ind_d = 0
               then (case array_get new_block_list new_list_i of
                       Inl e \<Rightarrow> Inl e
                     | Inr v \<Rightarrow>
                         Inr (ind_d\<lparr>indirect := v\<rparr>, replicate 128 0, new_list_i + 1, s))
               else (case cache_read (indirect ind_d) s of
                       Inl e \<Rightarrow> Inl e
                     | Inr (c, s') \<Rightarrow> Inr (ind_d, words_of c, new_list_i, s'))) of
           Inl e \<Rightarrow> Inl e
         | Inr (ind_d', buffer, i2, s2) \<Rightarrow>
             (case for_loop (table_step sz new_block_list 12) [0..<128] (buffer, i2, s2) of
                Inl e \<Rightarrow> Inl e
              | Inr (buffer', i3, s3) \<Rightarrow>
                  (case cache_write (bytes_of buffer') (indirect ind_d') s3 of
                     Inl e \<Rightarrow> Inl e
                   | Inr s4 \<Rightarrow> Inr (ind_d', i3, s4)))))"

text \<open>
  The part that handles the double-indirect pointer: the first-level index sector is created
  or read, \<open>double_step\<close> runs for its 128 entries, and it is written back.
\<close>

definition resize_double ::
    "off_t \<Rightarrow> block_sector_t list \<Rightarrow> inode_disk \<times> nat \<times> fs_state
     \<Rightarrow> error + (inode_disk \<times> nat \<times> fs_state)" where
  "resize_double sz new_block_list st =
     (case st of (ind_d, new_list_i, s) \<Rightarrow>
        (case (if indirect_double ind_d = 0
               then (case array_get new_block_list new_list_i of
                       Inl e \<Rightarrow> Inl e
                     | Inr v \<Rightarrow>
                         Inr (ind_d\<lparr>indirect_double := v\<rparr>, replicate 128 0,
                              new_list_i + 1, s))
               else (case cache_read (indirect_double ind_d) s of
                       Inl e \<Rightarrow> Inl e
                     | Inr (c, s') \<Rightarrow> Inr (ind_d, words_of c, new_list_i, s'))) of
           Inl e \<Rightarrow> Inl e
         | Inr (ind_d', buffer1, i4, s5) \<Rightarrow>
             (case for_loop (double_step sz new_block_list) [0..<128] (buffer1, i4, s5) of
                Inl e \<Rightarrow> Inl e
              | Inr (buffer1', i5, s6) \<Rightarrow>
                  (case cache_write (bytes_of buffer1') (indirect_double ind_d') s6 of
                     Inl e \<Rightarrow> Inl e
                   | Inr s7 \<Rightarrow> Inr (ind_d', i5, s7)))))"

text \<open>
  \<open>inode_resize\<close> returns the success flag, the metadata as the caller's structure holds it
  afterwards, and the file system. The batch is requested first; then come the direct
  pointers, the single-indirect part unless the file ends within the direct pointers and has
  no single-indirect sector, and the double-indirect part unless the file ends within the
  first 140 sectors and has no double-indirect sector.
\<close>

definition inode_resize ::
    "inode_disk \<Rightarrow> off_t \<Rightarrow> fs_state \<Rightarrow> error + (bool \<times> inode_disk \<times> fs_state)" where
  "inode_resize ind_d sz s =
     (let num_block_old = bytes_to_blocks (length_d ind_d);
          num_block_new = bytes_to_blocks sz
      in case free_map_allocate_non_consecutive (new_alloc_num num_block_new num_block_old) s of
           None \<Rightarrow> Inr (False, ind_d, s)
         | Some (new_block_list, s0) \<Rightarrow>
             (case for_loop (direct_step sz new_block_list) [0..<12] (ind_d, 0, s0) of
                Inl e \<Rightarrow> Inl e
              | Inr (ind_d1, i1, s1) \<Rightarrow>
                  if indirect ind_d1 = 0 \<and> sz \<le> 12 * BLOCK_SECTOR_SIZE
                  then Inr (True, ind_d1\<lparr>length_d := sz\<rparr>, s1)
                  else
                    (case resize_indirect sz new_block_list (ind_d1, i1, s1) of
                       Inl e \<Rightarrow> Inl e
                     | Inr (ind_d2, i3, s4) \<Rightarrow>
                         if indirect_double ind_d2 = 0 \<and> sz \<le> 140 * BLOCK_SECTOR_SIZE
                         then Inr (True, ind_d2\<lparr>length_d := sz\<rparr>, s4)
                         else
                           (case resize_double sz new_block_list (ind_d2, i3, s4) of
                              Inl e \<Rightarrow> Inl e
                            | Inr (ind_d3, i5, s7) \<Rightarrow>
                                Inr (True, ind_d3\<lparr>length_d := sz\<rparr>, s7)))))"

section \<open>Creating, reading and writing\<close>

definition inode_create :: "block_sector_t \<Rightarrow> off_t \<Rightarrow> fs_state \<Rightarrow> error + (bool \<times> fs_state)" where
  "inode_create sec len s =
     (if \<not> len \<ge> 0 then Inl AssertFailed
      else (let disk_inode = \<lparr>direct = replicate 12 0, indirect = 0, indirect_double = 0,
                              length_d = 0, magic = INODE_MAGIC, unused = replicate 112 0\<rparr>
            in case inode_resize disk_inode len s of
                 Inl e \<Rightarrow> Inl e
               | Inr (ok, disk_inode', s1) \<Rightarrow>
                   if ok
                   then (case cache_write (bytes_of_inode_disk disk_inode') sec s1 of
                           Inl e \<Rightarrow> Inl e
                         | Inr s2 \<Rightarrow> Inr (True, s2))
                   else Inr (False, s1)))"

text \<open>
  The caller's buffer is a list of bytes; \<open>copy_into buffer pos src\<close> is the buffer after
  \<open>memcpy (buffer + pos, src, length src)\<close>.
\<close>

definition copy_into :: "8 word list \<Rightarrow> nat \<Rightarrow> 8 word list \<Rightarrow> 8 word list" where
  "copy_into buffer pos src = take pos buffer @ src @ drop (pos + length src) buffer"

text \<open>
  The loop of \<open>inode_read_at\<close>. The allocation of the bounce buffer is taken to succeed.
  The remainder \<open>offset % BLOCK_SECTOR_SIZE\<close> is C's, with the sign of the dividend.
\<close>

function read_loop ::
    "inode \<Rightarrow> off_t \<Rightarrow> off_t \<Rightarrow> off_t \<Rightarrow> 8 word list \<Rightarrow> fs_state
     \<Rightarrow> error + (off_t \<times> 8 word list \<times> fs_state)" where
  "read_loop inode sz offset bytes_read buffer s =
     (if sz > 0
      then (case byte_to_sector inode offset s of
              Inl e \<Rightarrow> Inl e
            | Inr (sector_idx, s1) \<Rightarrow>
                (let sector_ofs = offset smod BLOCK_SECTOR_SIZE in
                 case inode_length inode s1 of
                   Inl e \<Rightarrow> Inl e
                 | Inr (len, s2) \<Rightarrow>
                     (let inode_left = len - offset;
                          sector_left = BLOCK_SECTOR_SIZE - sector_ofs;
                          min_left = (if inode_left < sector_left then inode_left else sector_left);
                          chunk_size = (if sz < min_left then sz else min_left)
                      in if chunk_size \<le> 0 then Inr (bytes_read, buffer, s2)
                         else (case cache_read sector_idx s2 of
                                 Inl e \<Rightarrow> Inl e
                               | Inr (c, s3) \<Rightarrow>
                                   read_loop inode (sz - chunk_size) (offset + chunk_size)
                                     (bytes_read + chunk_size)
                                     (if sector_ofs = 0 \<and> chunk_size = BLOCK_SECTOR_SIZE
                                      then copy_into buffer (nat bytes_read) (take 512 c)
                                      else copy_into buffer (nat bytes_read)
                                             (take (nat chunk_size) (drop (nat sector_ofs) c)))
                                     s3))))
      else Inr (bytes_read, buffer, s))"
  by pat_completeness auto
termination
  by (relation "measure (\<lambda>(inode, sz, offset, bytes_read, buffer, s). nat sz)")
     (auto split: if_splits)

definition inode_read_at ::
    "inode \<Rightarrow> 8 word list \<Rightarrow> off_t \<Rightarrow> off_t \<Rightarrow> fs_state
     \<Rightarrow> error + (off_t \<times> 8 word list \<times> fs_state)" where
  "inode_read_at inode buffer sz offset s = read_loop inode sz offset 0 buffer s"

function write_loop ::
    "inode \<Rightarrow> 8 word list \<Rightarrow> off_t \<Rightarrow> off_t \<Rightarrow> off_t \<Rightarrow> fs_state
     \<Rightarrow> error + (off_t \<times> fs_state)" where
  "write_loop inode buffer sz offset bytes_written s =
     (if sz > 0
      then (case byte_to_sector inode offset s of
              Inl e \<Rightarrow> Inl e
            | Inr (sector_idx, s1) \<Rightarrow>
                (let sector_ofs = offset smod BLOCK_SECTOR_SIZE in
                 case inode_length inode s1 of
                   Inl e \<Rightarrow> Inl e
                 | Inr (len, s2) \<Rightarrow>
                     (let inode_left = len - offset;
                          sector_left = BLOCK_SECTOR_SIZE - sector_ofs;
                          min_left = (if inode_left < sector_left then inode_left else sector_left);
                          chunk_size = (if sz < min_left then sz else min_left)
                      in if chunk_size \<le> 0 then Inr (bytes_written, s2)
                         else if sector_ofs = 0 \<and> chunk_size = BLOCK_SECTOR_SIZE
                         then (case cache_write (take 512 (drop (nat bytes_written) buffer))
                                      sector_idx s2 of
                                 Inl e \<Rightarrow> Inl e
                               | Inr s3 \<Rightarrow>
                                   write_loop inode buffer (sz - chunk_size) (offset + chunk_size)
                                     (bytes_written + chunk_size) s3)
                         else (case (if sector_ofs > 0 \<or> chunk_size < sector_left
                                     then cache_read sector_idx s2
                                     else Inr (zeros, s2)) of
                                 Inl e \<Rightarrow> Inl e
                               | Inr (bounce, s3) \<Rightarrow>
                                   (case cache_write
                                           (copy_into bounce (nat sector_ofs)
                                              (take (nat chunk_size)
                                                 (drop (nat bytes_written) buffer)))
                                           sector_idx s3 of
                                      Inl e \<Rightarrow> Inl e
                                    | Inr s4 \<Rightarrow>
                                        write_loop inode buffer (sz - chunk_size)
                                          (offset + chunk_size) (bytes_written + chunk_size) s4)))))
      else Inr (bytes_written, s))"
  by pat_completeness auto
termination
  by (relation "measure (\<lambda>(inode, buffer, sz, offset, bytes_written, s). nat sz)")
     (auto split: if_splits)

text \<open>
  \<open>inode_write_at\<close>. The metadata \<open>ind_d\<close> is the copy read from the cache; the source passes
  it to \<open>inode_resize\<close> and does not write it back to the inode's sector, and it drops the
  result of \<open>inode_resize\<close>.
\<close>

definition inode_write_at ::
    "inode \<Rightarrow> 8 word list \<Rightarrow> off_t \<Rightarrow> off_t \<Rightarrow> fs_state \<Rightarrow> error + (off_t \<times> fs_state)" where
  "inode_write_at inode buffer sz offset s =
     (if deny_write_cnt inode \<noteq> 0 then Inr (0, s)
      else (let new_lenght = sz + offset in
            case cache_read (sector inode) s of
              Inl e \<Rightarrow> Inl e
            | Inr (c, s1) \<Rightarrow>
                (let ind_d = inode_disk_of c in
                 case (if new_lenght > length_d ind_d
                       then (case inode_resize ind_d new_lenght s1 of
                               Inl e \<Rightarrow> Inl e
                             | Inr (ok, ind_d', s2) \<Rightarrow> Inr s2)
                       else Inr s1) of
                   Inl e \<Rightarrow> Inl e
                 | Inr s2 \<Rightarrow> write_loop inode buffer sz offset 0 s2)))"

section \<open>The cache invariant and the contents it presents\<close>

text \<open>\<open>holds sec b\<close>: the slot \<open>b\<close> is valid and stands for sector \<open>sec\<close>.\<close>

definition holds :: "block_sector_t \<Rightarrow> cache_block \<Rightarrow> bool" where
  "holds sec b = (is_valid b \<and> bst b = sec)"

text \<open>The valid slots stand for pairwise distinct sectors.\<close>

definition cache_unique :: "cache_block list \<Rightarrow> bool" where
  "cache_unique c = distinct (map bst (filter is_valid c))"

text \<open>
  The contents of a sector as a reader sees them through the cache: those of the slot that
  holds the sector, and those on the device when no slot does.
\<close>

definition logical :: "fs_state \<Rightarrow> block_sector_t \<Rightarrow> sector_data" where
  "logical s sec =
     (case find (holds sec) (cache s) of Some b \<Rightarrow> content b | None \<Rightarrow> fs_device s sec)"

text \<open>
  A cache in working order: it has slots, the valid slots stand for distinct sectors, and a
  valid slot that is not dirty agrees with the device.
\<close>

definition cache_ok :: "fs_state \<Rightarrow> bool" where
  "cache_ok s =
     (cache s \<noteq> [] \<and> cache_unique (cache s) \<and>
      list_all (\<lambda>b. is_valid b \<and> \<not> is_dirty b \<longrightarrow> content b = fs_device s (bst b)) (cache s))"

section \<open>States that resize leaves alone\<close>

text \<open>
  An index table is settled for a length when it has 128 entries and entry \<open>i\<close> is
  allocated exactly when the length covers the data sector \<open>base + i\<close>.
\<close>

definition table_settled :: "off_t \<Rightarrow> nat \<Rightarrow> block_sector_t list \<Rightarrow> bool" where
  "table_settled sz base T =
     (length T = 128 \<and> (\<forall>i<128. (T ! i \<noteq> 0) = (sz > int (base + i) * BLOCK_SECTOR_SIZE)))"

text \<open>
  The index sectors of an inode: the single-indirect sector, the double-indirect sector and
  the second-level sectors its table names.
\<close>

definition index_sectors :: "inode_disk \<Rightarrow> fs_state \<Rightarrow> block_sector_t list" where
  "index_sectors m s =
     (if indirect m \<noteq> 0 then [indirect m] else []) @
     (if indirect_double m \<noteq> 0
      then indirect_double m # filter (\<lambda>t. t \<noteq> 0) (words_of (logical s (indirect_double m)))
      else [])"

text \<open>
  A file system and metadata in working order: the cache is in working order, every sector
  has 512 bytes, there are 12 direct pointers, no sector is free twice, sector 0 is not free,
  and the index sectors of the inode are distinct and not free.
\<close>

definition resize_ready :: "inode_disk \<Rightarrow> fs_state \<Rightarrow> bool" where
  "resize_ready m s =
     (cache_ok s \<and> (\<forall>sec. length (logical s sec) = 512) \<and> length (direct m) = 12 \<and>
      distinct (free_map s) \<and> 0 \<notin> set (free_map s) \<and>
      distinct (index_sectors m s) \<and> set (index_sectors m s) \<inter> set (free_map s) = {})"

text \<open>
  Metadata settled for a length: the length is stored, and every pointer slot that
  \<open>inode_resize\<close> walks for this length is allocated exactly when the length covers it.
\<close>

definition settled :: "inode_disk \<Rightarrow> off_t \<Rightarrow> fs_state \<Rightarrow> bool" where
  "settled m sz s =
     (length_d m = sz \<and>
      (\<forall>i<12. (direct m ! i \<noteq> 0) = (sz > BLOCK_SECTOR_SIZE * int i)) \<and>
      (indirect m = 0 \<and> sz \<le> 12 * BLOCK_SECTOR_SIZE \<or>
       indirect m \<noteq> 0 \<and>
       (\<exists>T. table_settled sz 12 T \<and> logical s (indirect m) = bytes_of T) \<and>
       (indirect_double m = 0 \<and> sz \<le> 140 * BLOCK_SECTOR_SIZE \<or>
        indirect_double m \<noteq> 0 \<and>
        (\<exists>TD. length TD = 128 \<and> logical s (indirect_double m) = bytes_of TD \<and>
           (\<forall>i<128. if sz > int (140 + i) * BLOCK_SECTOR_SIZE
                    then TD ! i \<noteq> 0 \<and>
                         (\<exists>T. table_settled sz (140 + i * 128) T \<and>
                              logical s (TD ! i) = bytes_of T)
                    else TD ! i = 0)))))"

section \<open>Example states\<close>

text \<open>
  A file system just initialised: 64 empty cache slots, a device of zeroed sectors, and the
  sectors 100 to 299 free.
\<close>

definition fs0 :: fs_state where
  "fs0 = \<lparr>cache = cache_init, fs_device = (\<lambda>_. zeros), free_map = map of_nat [100..<300]\<rparr>"

definition ino5 :: inode where
  "ino5 = \<lparr>sector = 5, open_cnt = 1, removed = False, deny_write_cnt = 0\<rparr>"

definition ino5_denied :: inode where
  "ino5_denied = \<lparr>sector = 5, open_cnt = 1, removed = False, deny_write_cnt = 1\<rparr>"

text \<open>The metadata \<open>inode_create\<close> starts from: no sector, length 0.\<close>

definition file_empty :: inode_disk where
  "file_empty = \<lparr>direct = replicate 12 0, indirect = 0, indirect_double = 0, length_d = 0,
                  magic = INODE_MAGIC, unused = replicate 112 0\<rparr>"

text \<open>A file of one sector, at sector 20.\<close>

definition file_one :: inode_disk where
  "file_one = \<lparr>direct = 20 # replicate 11 0, indirect = 0, indirect_double = 0,
                length_d = 512, magic = INODE_MAGIC, unused = replicate 112 0\<rparr>"

text \<open>A file of two sectors, at the sectors 20 and 21, and a file system with it at sector 5.\<close>

definition file_two :: inode_disk where
  "file_two = \<lparr>direct = 20 # 21 # replicate 10 0, indirect = 0, indirect_double = 0,
                length_d = 1024, magic = INODE_MAGIC, unused = replicate 112 0\<rparr>"

definition fs_two :: fs_state where
  "fs_two = fs0\<lparr>fs_device := (fs_device fs0)(5 := bytes_of_inode_disk file_two)\<rparr>"

text \<open>
  A file of 200 sectors: the direct pointers 20 to 31, the single-indirect table at sector 32
  with the entries 400 to 527, the double-indirect table at sector 33 with one second-level
  table at sector 34, whose first 60 entries are 528 to 587; and a file system with its
  metadata at sector 5.
\<close>

definition file_200 :: inode_disk where
  "file_200 = \<lparr>direct = map of_nat [20..<32], indirect = 32, indirect_double = 33,
                length_d = 102400, magic = INODE_MAGIC, unused = replicate 112 0\<rparr>"

definition table_200 :: "block_sector_t list" where
  "table_200 = map of_nat [400..<528]"

definition table2_200 :: "block_sector_t list" where
  "table2_200 = 34 # replicate 127 0"

definition table3_200 :: "block_sector_t list" where
  "table3_200 = map of_nat [528..<588] @ replicate 68 0"

definition fs_200 :: fs_state where
  "fs_200 = fs0\<lparr>fs_device := (fs_device fs0)(5 := bytes_of_inode_disk file_200,
                                                32 := bytes_of table_200,
                                                33 := bytes_of table2_200,
                                                34 := bytes_of table3_200)\<rparr>"

text \<open>
  A file system in which the free sector 113 still holds the bytes of a file deleted
  earlier.
\<close>

definition fs_stale :: fs_state where
  "fs_stale = fs0\<lparr>fs_device := (fs_device fs0)(113 := replicate 512 255)\<rparr>"

section \<open>The search loop and the cache operations\<close>

lemma scan_loop_False: "scan_loop sec xs i b False = (b, False)"
  by (cases xs) simp_all

lemma scan_loop_True:
  "xs \<noteq> [] \<Longrightarrow> scan_loop sec xs i b True =
     (let k = length (takeWhile (\<lambda>x. \<not> holds sec x) xs)
      in if k < length xs then (Some (i + k), False) else (Some (i + length xs - 1), True))"
proof (induction xs arbitrary: i b)
  case Nil
  then show ?case by simp
next
  case (Cons x xs)
  show ?case
  proof (cases "holds sec x")
    case True
    then show ?thesis by (simp add: scan_loop_False holds_def)
  next
    case False
    show ?thesis
    proof (cases xs)
      case Nil
      with False show ?thesis by (simp add: holds_def)
    next
      case (Cons y ys)
      then have "xs \<noteq> []" by simp
      from Cons.IH [OF this, of "Suc i" "Some i"] False show ?thesis
        by (simp add: holds_def Let_def)
    qed
  qed
qed

lemma find_append_eq:
  "find P (xs @ ys) = (case find P xs of None \<Rightarrow> find P ys | Some x \<Rightarrow> Some x)"
  by (induction xs) auto

lemma find_none: "(\<forall>x\<in>set xs. \<not> P x) \<Longrightarrow> find P xs = None"
  by (simp add: find_None_iff)

lemma find_block_hit:
  assumes c: "cache s = xs @ b # ys" and xs: "\<forall>x\<in>set xs. \<not> holds sec x" and b: "holds sec b"
  shows "find_block_and_acq_lock sec r s = Inr (s\<lparr>cache := b\<lparr>hit_cnt := hit_cnt b + 1\<rparr> # xs @ ys\<rparr>)"
proof -
  have tw: "takeWhile (\<lambda>x. \<not> holds sec x) (cache s) = xs"
    using c xs b by (simp add: takeWhile_append2)
  have ne: "cache s \<noteq> []" using c by simp
  have "scan_loop sec (cache s) 0 None True = (Some (length xs), False)"
    using scan_loop_True [OF ne, of sec 0 None] tw c by (simp add: Let_def)
  then show ?thesis
    using c by (simp add: find_block_and_acq_lock_def Let_def nth_append)
qed

lemma find_block_miss:
  assumes c: "cache s = xs @ [b]" and no: "\<forall>x\<in>set (cache s). \<not> holds sec x"
  shows "find_block_and_acq_lock sec r s =
     Inr ((if is_valid b \<and> is_dirty b then block_write (bst b) (content b) s else s)
          \<lparr>cache := b\<lparr>miss_cnt := miss_cnt b + 1, bst := sec,
                content := block_read (if is_valid b \<and> is_dirty b then block_write (bst b) (content b) s else s) sec,
                is_valid := True, is_dirty := False\<rparr> # xs\<rparr>)"
proof -
  have tw: "takeWhile (\<lambda>x. \<not> holds sec x) (cache s) = cache s"
    using no by (simp add: takeWhile_eq_all_conv)
  have ne: "cache s \<noteq> []" using c by simp
  have "scan_loop sec (cache s) 0 None True = (Some (length xs), True)"
    using scan_loop_True [OF ne, of sec 0 None] tw c by (simp add: Let_def)
  then show ?thesis
    using c by (simp add: find_block_and_acq_lock_def Let_def nth_append)
qed

lemma cache_cases:
  assumes "c \<noteq> []"
  obtains (hit) xs b ys where "c = xs @ b # ys" "\<forall>x\<in>set xs. \<not> P x" "P b"
        | (miss) xs b where "c = xs @ [b]" "\<forall>x\<in>set c. \<not> P x"
proof (cases "\<exists>x\<in>set c. P x")
  case True
  then obtain xs b ys where "c = xs @ b # ys" "P b" "\<forall>x\<in>set xs. \<not> P x"
    using split_list_first_prop [of c P] by blast
  then show ?thesis using hit by blast
next
  case False
  with assms miss [of "butlast c" "last c"] show ?thesis by simp
qed

lemma find_block_spec:
  assumes ok: "cache_ok s"
  shows "\<exists>s' b rest. find_block_and_acq_lock sec r s = Inr s' \<and> cache_ok s' \<and>
           logical s' = logical s \<and> free_map s' = free_map s \<and>
           cache s' = b # rest \<and> is_valid b \<and> bst b = sec \<and> content b = logical s sec \<and>
           length (cache s') = length (cache s)"
proof -
  from ok have ne: "cache s \<noteq> []" and un: "cache_unique (cache s)"
    and cl: "list_all (\<lambda>b. is_valid b \<and> \<not> is_dirty b \<longrightarrow> content b = fs_device s (bst b)) (cache s)"
    by (simp_all add: cache_ok_def)
  from ne show ?thesis
  proof (cases rule: cache_cases [where P = "holds sec"])
    case (hit xs b ys)
    let ?b = "b\<lparr>hit_cnt := hit_cnt b + 1\<rparr>"
    let ?s = "s\<lparr>cache := ?b # xs @ ys\<rparr>"
    have f: "find_block_and_acq_lock sec r s = Inr ?s"
      using find_block_hit [OF hit] .
    have ok': "cache_ok ?s"
      using un cl hit(1) by (auto simp: cache_ok_def cache_unique_def)
    have fx: "find (holds sec) xs = None"
      using hit(2) by (simp add: find_none)
    have lg: "logical ?s sec' = logical s sec'" for sec'
    proof (cases "holds sec' b")
      case True
      then have "sec' = sec" using hit(3) by (simp add: holds_def)
      then show ?thesis using hit(1,3) fx by (auto simp: logical_def find_append_eq holds_def)
    next
      case False
      then show ?thesis using hit(1)
        by (auto simp: logical_def find_append_eq holds_def split: option.splits)
    qed
    have cb: "content ?b = logical s sec"
      using hit by (simp add: logical_def find_append_eq find_none)
    show ?thesis using f ok' lg cb hit by (auto simp: holds_def)
  next
    case (miss xs b)
    let ?s1 = "if is_valid b \<and> is_dirty b then block_write (bst b) (content b) s else s"
    let ?b = "b\<lparr>miss_cnt := miss_cnt b + 1, bst := sec, content := block_read ?s1 sec,
                is_valid := True, is_dirty := False\<rparr>"
    let ?s = "?s1\<lparr>cache := ?b # xs\<rparr>"
    have f: "find_block_and_acq_lock sec r s = Inr ?s"
      using find_block_miss [OF miss] .
    have nb: "is_valid b \<Longrightarrow> bst b \<noteq> sec"
      using miss by (auto simp: holds_def)
    have nx: "x \<in> set xs \<Longrightarrow> is_valid x \<Longrightarrow> bst x \<noteq> sec" for x
      using miss by (auto simp: holds_def)
    have d: "x \<in> set xs \<Longrightarrow> is_valid x \<Longrightarrow> is_valid b \<Longrightarrow> bst x \<noteq> bst b" for x
      using un miss(1) by (auto simp: cache_unique_def image_iff)
    have ok': "cache_ok ?s"
      using un cl miss(1) nx d
      by (auto simp: cache_ok_def cache_unique_def block_write_def block_read_def list_all_iff)
    have fs: "find (holds sec) (cache s) = None"
      using miss(2) by (simp add: find_none)
    have cb: "content ?b = logical s sec"
      using nb fs by (auto simp: logical_def block_read_def block_write_def)
    have lg: "logical ?s sec' = logical s sec'" for sec'
    proof (cases "sec' = sec")
      case True
      then show ?thesis using nb fs
        by (auto simp: logical_def holds_def block_read_def block_write_def)
    next
      case False
      then show ?thesis using cl miss(1)
        by (auto simp: logical_def holds_def find_append_eq block_write_def split: option.splits)
    qed
    show ?thesis using f ok' lg cb miss(1)
      by (auto simp: block_write_def)
  qed
qed

lemma cache_unique_iff:
  "cache_unique c \<longleftrightarrow> (\<forall>S. length (filter (holds S) c) \<le> 1)"
proof -
  have h: "filter (holds S) c = filter (\<lambda>b. bst b = S) (filter is_valid c)" for S
    by (induction c) (auto simp: holds_def)
  have "distinct (map bst xs) \<longleftrightarrow> (\<forall>S. length (filter (\<lambda>b. bst b = S) xs) \<le> 1)" for xs :: "cache_block list"
  proof (induction xs)
    case Nil
    then show ?case by simp
  next
    case (Cons x xs)
    show ?case
    proof
      assume d: "distinct (map bst (x # xs))"
      then have ih: "\<forall>S. length (filter (\<lambda>b. bst b = S) xs) \<le> 1" using Cons.IH by simp
      from d have "filter (\<lambda>b. bst b = bst x) xs = []"
        by (auto simp: filter_empty_conv image_iff)
      with ih show "\<forall>S. length (filter (\<lambda>b. bst b = S) (x # xs)) \<le> 1" by auto
    next
      assume a: "\<forall>S. length (filter (\<lambda>b. bst b = S) (x # xs)) \<le> 1"
      then have "length (filter (\<lambda>b. bst b = S) xs) \<le> 1" for S
        by (metis (mono_tags, lifting) filter.simps(2) le_SucI length_Cons Suc_le_mono le_trans nat_le_linear)
      then have d: "distinct (map bst xs)" using Cons.IH by simp
      from a have "length (filter (\<lambda>b. bst b = bst x) (x # xs)) \<le> 1" by blast
      then have "filter (\<lambda>b. bst b = bst x) xs = []" by simp
      then have "bst x \<notin> bst ` set xs" by (auto simp: filter_empty_conv)
      with d show "distinct (map bst (x # xs))" by simp
    qed
  qed
  with h show ?thesis by (simp add: cache_unique_def)
qed

lemma cache_unique_init: "cache_unique cache_init"
  by (simp add: cache_unique_def cache_init_def new_cache_block_def)

lemma find_block_unique:
  assumes un: "cache_unique (cache s)" and f: "find_block_and_acq_lock sec r s = Inr s'"
  shows "cache_unique (cache s') \<and> length (cache s') = length (cache s)"
proof (cases "cache s = []")
  case True
  with f show ?thesis by (simp add: find_block_and_acq_lock_def)
next
  case False
  then show ?thesis
  proof (cases rule: cache_cases [where P = "holds sec"])
    case (hit xs b ys)
    from find_block_hit [OF hit, of r] f
    have "s' = s\<lparr>cache := b\<lparr>hit_cnt := hit_cnt b + 1\<rparr> # xs @ ys\<rparr>" by simp
    with un hit(1) show ?thesis by (auto simp: cache_unique_def)
  next
    case (miss xs b)
    have nx: "x \<in> set xs \<Longrightarrow> is_valid x \<Longrightarrow> bst x \<noteq> sec" for x
      using miss by (auto simp: holds_def)
    from find_block_miss [OF miss, of r] f
    have "cache s' = b\<lparr>miss_cnt := miss_cnt b + 1, bst := sec,
                content := block_read (if is_valid b \<and> is_dirty b then block_write (bst b) (content b) s else s) sec,
                is_valid := True, is_dirty := False\<rparr> # xs"
      by (auto simp: block_write_def)
    with un miss(1) nx show ?thesis by (auto simp: cache_unique_def)
  qed
qed

lemma cache_read_unique:
  assumes "cache_unique (cache s)" and "cache_read sec s = Inr (d, s')"
  shows "cache_unique (cache s') \<and> length (cache s') = length (cache s)"
  using assms find_block_unique [of s sec True]
  by (auto simp: cache_read_def split: sum.splits)

lemma cache_write_unique:
  assumes un: "cache_unique (cache s)" and w: "cache_write src sec s = Inr s'"
  shows "cache_unique (cache s') \<and> length (cache s') = length (cache s)"
proof -
  from w obtain s1 where f: "find_block_and_acq_lock sec False s = Inr s1"
    and s': "s' = s1\<lparr>cache := (hd (cache s1))\<lparr>content := src, is_dirty := True\<rparr> # tl (cache s1)\<rparr>"
    by (auto simp: cache_write_def split: sum.splits)
  from find_block_unique [OF un f] have u1: "cache_unique (cache s1)"
    and l1: "length (cache s1) = length (cache s)" by simp_all
  show ?thesis
  proof (cases "cache s1")
    case Nil
    with f show ?thesis
      by (auto simp: find_block_and_acq_lock_def Let_def split: prod.splits option.splits if_splits)
  next
    case (Cons b rest)
    with u1 l1 s' show ?thesis by (auto simp: cache_unique_def)
  qed
qed

lemma cache_read_spec:
  assumes ok: "cache_ok s"
  shows "\<exists>s'. cache_read sec s = Inr (logical s sec, s') \<and> cache_ok s' \<and>
           logical s' = logical s \<and> free_map s' = free_map s"
  using find_block_spec [OF ok, of sec True]
  by (auto simp: cache_read_def)

lemma cache_write_spec:
  assumes ok: "cache_ok s"
  shows "\<exists>s'. cache_write src sec s = Inr s' \<and> cache_ok s' \<and>
           logical s' = (logical s)(sec := src) \<and> free_map s' = free_map s"
proof -
  from find_block_spec [OF ok, of sec False]
  obtain s1 b rest where f: "find_block_and_acq_lock sec False s = Inr s1"
    and ok1: "cache_ok s1" and lg: "logical s1 = logical s" and fm: "free_map s1 = free_map s"
    and c1: "cache s1 = b # rest" and b: "is_valid b" "bst b = sec"
    by blast
  let ?s = "s1\<lparr>cache := b\<lparr>content := src, is_dirty := True\<rparr> # rest\<rparr>"
  have w: "cache_write src sec s = Inr ?s"
    using f c1 by (simp add: cache_write_def)
  have ok': "cache_ok ?s"
    using ok1 c1 by (auto simp: cache_ok_def cache_unique_def)
  have "logical ?s sec' = ((logical s)(sec := src)) sec'" for sec'
    using lg [symmetric] c1 b by (auto simp: logical_def holds_def split: option.splits)
  then have "logical ?s = (logical s)(sec := src)" by blast
  with w ok' fm show ?thesis by auto
qed

section \<open>Bytes and words\<close>

lemma le32_bytes32: "le32 (ucast w) (ucast (drop_bit 8 w)) (ucast (drop_bit 16 w)) (ucast (drop_bit 24 w)) = w"
proof (rule bit_word_eqI)
  fix n assume n: "n < LENGTH(32)"
  consider "n < 8" | "8 \<le> n" "n < 16" | "16 \<le> n" "n < 24" | "24 \<le> n" by linarith
  then show "bit (le32 (ucast w) (ucast (drop_bit 8 w)) (ucast (drop_bit 16 w)) (ucast (drop_bit 24 w))) n = bit w n"
    using n unfolding le32_def by cases (auto simp add: bit_simps)
qed

lemma words_of_bytes_of: "words_of (bytes_of ws) = ws"
  by (induction ws) (simp_all add: bytes32_def le32_bytes32)

lemma length_bytes_of: "length (bytes_of ws) = 4 * length ws"
  by (induction ws) (simp_all add: bytes32_def)

lemma inode_disk_of_bytes:
  assumes "length (direct m) = 12" "- (2 ^ 31) \<le> length_d m" "length_d m < 2 ^ 31"
  shows "inode_disk_of (bytes_of_inode_disk m) = m"
proof -
  have "sint (word_of_int (length_d m) :: 32 word) = length_d m"
    using assms(2,3) by (simp add: sint_sbintrunc' signed_take_bit_int_eq_self)
  then show ?thesis
    using assms(1)
    by (simp add: inode_disk_of_def bytes_of_inode_disk_def words_of_bytes_of nth_append)
qed

section \<open>Address translation, case by case\<close>

lemma length_direct_inode_disk_of: "length (direct (inode_disk_of c)) \<le> 12"
  by (simp add: inode_disk_of_def Let_def)

lemma unat_m1: "unat (- 1 :: 32 word) = 4294967295"
proof -
  have "unat (- 1 :: 32 word) = unat (0 - 1 :: 32 word)" by simp
  also have "\<dots> = 4294967295" by (subst unat_sub_if') simp
  finally show ?thesis .
qed

lemma byte_to_sector_zero:
  assumes ok: "cache_ok s" and z: "bytes_to_sectors pos = 0"
  shows "byte_to_sector inode pos s = Inl OutOfBounds"
proof -
  from cache_read_spec [OF ok, of "sector inode"]
  obtain s1 where r: "cache_read (sector inode) s = Inr (logical s (sector inode), s1)" by blast
  have "array_get (direct (inode_disk_of (logical s (sector inode)))) (unat (0 - 1 :: 32 word))
        = Inl OutOfBounds"
    using length_direct_inode_disk_of [of "logical s (sector inode)"]
    by (simp add: array_get_def unat_m1)
  then show ?thesis
    using r z by (simp add: byte_to_sector_def Let_def)
qed

lemma byte_to_sector_direct:
  assumes ok: "cache_ok s" and n: "bytes_to_sectors pos = n" "0 < n" "n \<le> 12"
    and m: "inode_disk_of (logical s (sector inode)) = m" "length (direct m) = 12"
  shows "\<exists>s'. byte_to_sector inode pos s = Inr (direct m ! (unat n - 1), s') \<and> cache_ok s' \<and>
           logical s' = logical s \<and> free_map s' = free_map s"
proof -
  from cache_read_spec [OF ok, of "sector inode"]
  obtain s1 where r: "cache_read (sector inode) s = Inr (logical s (sector inode), s1)"
    and s1: "cache_ok s1" "logical s1 = logical s" "free_map s1 = free_map s" by blast
  have u: "unat (n - 1) = unat n - 1" using n(2) by (simp add: unat_minus_one word_neq_0_conv)
  have "unat n \<le> 12" using n(3) by (simp add: word_le_nat_alt)
  moreover have "0 < unat n" using n(2) by (simp add: word_less_nat_alt)
  ultimately have "array_get (direct m) (unat (n - 1)) = Inr (direct m ! (unat n - 1))"
    using m(2) u by (simp add: array_get_def)
  then show ?thesis
    using r n m s1 by (simp add: byte_to_sector_def Let_def)
qed

lemma byte_to_sector_indirect:
  assumes ok: "cache_ok s" and n: "bytes_to_sectors pos = n" "12 < n" "n \<le> 140"
    and m: "inode_disk_of (logical s (sector inode)) = m"
    and t: "words_of (logical s (indirect m)) = t" "length t = 128"
  shows "\<exists>s'. byte_to_sector inode pos s = Inr (t ! (unat n - 13), s') \<and> cache_ok s' \<and>
           logical s' = logical s \<and> free_map s' = free_map s"
proof -
  from cache_read_spec [OF ok, of "sector inode"]
  obtain s1 where r: "cache_read (sector inode) s = Inr (logical s (sector inode), s1)"
    and s1: "cache_ok s1" "logical s1 = logical s" "free_map s1 = free_map s" by blast
  from cache_read_spec [OF s1(1), of "indirect m"] s1
  obtain s2 where r2: "cache_read (indirect m) s1 = Inr (logical s (indirect m), s2)"
    and s2: "cache_ok s2" "logical s2 = logical s" "free_map s2 = free_map s" by auto
  have lo: "12 < unat n" and hi: "unat n \<le> 140"
    using n(2,3) by (simp_all add: word_le_nat_alt word_less_nat_alt)
  have "unat (n - 12 - 1) = unat n - 13"
    using lo by (simp add: unat_sub_if' word_le_nat_alt word_less_nat_alt) 
  then have "array_get t (unat (n - 12 - 1)) = Inr (t ! (unat n - 13))"
    using lo hi t(2) by (simp add: array_get_def)
  moreover have "\<not> n \<le> 12" using n(2) by simp
  ultimately show ?thesis
    using r r2 n m t s2 by (simp add: byte_to_sector_def Let_def)
qed

section \<open>Growing from empty tables\<close>


lemma table_loop_noop:
  "\<forall>i\<in>set is. sz \<le> int (base + i) * 512 \<and> buffer ! i = 0 \<Longrightarrow>
   for_loop (table_step sz nbl base) is (buffer, nli, s) = Inr (buffer, nli, s)"
  by (induction "is") (simp_all add: table_step_def BLOCK_SECTOR_SIZE_def)

lemma direct_loop_fresh:
  assumes "cache_ok s" "\<forall>i<12. k \<le> i \<longrightarrow> direct m ! i = 0" "length (direct m) = 12" "k \<le> 12"
    and "sz > 11 * 512" "12 \<le> length nbl" "nli \<le> k"
  shows "\<exists>m' s'. for_loop (direct_step sz nbl) [k..<12] (m, nli, s)
           = Inr (m', nli + (12 - k), s') \<and> cache_ok s' \<and> indirect m' = indirect m \<and>
             indirect_double m' = indirect_double m \<and> free_map s' = free_map s \<and>
             (\<forall>sec. (\<forall>i<12. k \<le> i \<longrightarrow> nbl ! i \<noteq> sec) \<longrightarrow> logical s' sec = logical s sec)"
  using assms
proof (induction "12 - k" arbitrary: k m nli s)
  case 0
  then show ?case by simp
next
  case (Suc n)
  then have k: "k < 12" by simp
  have up: "[k..<12] = k # [Suc k..<12]" using k by (simp add: upt_conv_Cons)
  have g: "array_get nbl nli = Inr (nbl ! nli)" "array_get nbl k = Inr (nbl ! k)"
    using Suc.prems(6,7) k by (simp_all add: array_get_def)
  from cache_write_spec [OF Suc.prems(1), of zeros "nbl ! k"]
  obtain s1 where w: "cache_write zeros (nbl ! k) s = Inr s1" and ok1: "cache_ok s1"
    and lg1: "logical s1 = (logical s)(nbl ! k := zeros)" and fm1: "free_map s1 = free_map s"
    by blast
  let ?m = "m\<lparr>direct := (direct m)[k := nbl ! nli]\<rparr>"
  have big: "sz > 512 * int k" using Suc.prems(5) k by simp
  have st: "direct_step sz nbl k (m, nli, s) = Inr (?m, nli + 1, s1)"
    using Suc.prems(2) k big g w by (simp add: direct_step_def BLOCK_SECTOR_SIZE_def)
  have "\<exists>m' s'. for_loop (direct_step sz nbl) [Suc k..<12] (?m, nli + 1, s1)
           = Inr (m', nli + 1 + (12 - Suc k), s') \<and> cache_ok s' \<and> indirect m' = indirect ?m \<and>
             indirect_double m' = indirect_double ?m \<and> free_map s' = free_map s1 \<and>
             (\<forall>sec. (\<forall>i<12. Suc k \<le> i \<longrightarrow> nbl ! i \<noteq> sec) \<longrightarrow> logical s' sec = logical s1 sec)"
    using Suc.hyps(2) Suc.prems k ok1
    by (intro Suc.hyps(1)) auto
  then obtain m' s' where r: "for_loop (direct_step sz nbl) [Suc k..<12] (?m, nli + 1, s1)
           = Inr (m', nli + 1 + (12 - Suc k), s')" and ok': "cache_ok s'"
    and ii: "indirect m' = indirect m" "indirect_double m' = indirect_double m"
    and fm': "free_map s' = free_map s1"
    and lg': "\<forall>sec. (\<forall>i<12. Suc k \<le> i \<longrightarrow> nbl ! i \<noteq> sec) \<longrightarrow> logical s' sec = logical s1 sec"
    by auto
  have "logical s' sec = logical s sec" if h: "\<forall>i<12. k \<le> i \<longrightarrow> nbl ! i \<noteq> sec" for sec
  proof -
    from h k have "nbl ! k \<noteq> sec" by simp
    moreover from h have "\<forall>i<12. Suc k \<le> i \<longrightarrow> nbl ! i \<noteq> sec" by simp
    ultimately show ?thesis using lg' lg1 by simp
  qed
  then show ?case using up st k r ok' ii fm' fm1 by auto
qed

section \<open>What the loops of resize establish\<close>

lemma table_step_result:
  assumes "table_step sz nbl base i (buffer, nli, s) = Inr (buffer', nli', s')"
    and "i < length buffer" "0 \<notin> set nbl"
  shows "length buffer' = length buffer \<and> nli \<le> nli' \<and> nli' \<le> Suc nli \<and> cache s' = cache s \<and>
         fs_device s' = fs_device s \<and>
         (\<forall>j. j \<noteq> i \<longrightarrow> buffer' ! j = buffer ! j) \<and>
         ((buffer' ! i \<noteq> 0) = (sz > int (base + i) * BLOCK_SECTOR_SIZE))"
  using assms
  by (auto simp: table_step_def array_get_def free_map_release_def in_set_conv_nth
           split: if_splits)

lemma table_loop_result:
  assumes "for_loop (table_step sz nbl base) [k..<128] (buffer, nli, s) = Inr (buffer', nli', s')"
    and "length buffer = 128" "0 \<notin> set nbl"
  shows "length buffer' = 128 \<and> nli \<le> nli' \<and> cache s' = cache s \<and> fs_device s' = fs_device s \<and>
         (\<forall>i<k. buffer' ! i = buffer ! i) \<and>
         (\<forall>i. k \<le> i \<and> i < 128 \<longrightarrow> (buffer' ! i \<noteq> 0) = (sz > int (base + i) * BLOCK_SECTOR_SIZE))"
  using assms
proof (induction "128 - k" arbitrary: k buffer nli s)
  case 0
  then show ?case by auto
next
  case (Suc n)
  then have k: "k < 128" by simp
  have up: "[k..<128] = k # [Suc k..<128]" using k by (simp add: upt_conv_Cons)
  from Suc.prems(1) obtain b1 n1 s1 where
    st: "table_step sz nbl base k (buffer, nli, s) = Inr (b1, n1, s1)"
    and rest: "for_loop (table_step sz nbl base) [Suc k..<128] (b1, n1, s1) = Inr (buffer', nli', s')"
    unfolding up by (auto split: sum.splits)
  from table_step_result [OF st] k Suc.prems(2,3)
  have r1: "length b1 = 128" "nli \<le> n1" "cache s1 = cache s" "fs_device s1 = fs_device s"
    "\<forall>j. j \<noteq> k \<longrightarrow> b1 ! j = buffer ! j"
    "(b1 ! k \<noteq> 0) = (sz > int (base + k) * BLOCK_SECTOR_SIZE)"
    by simp_all
  have "n = 128 - Suc k" using Suc.hyps(2) by simp
  from Suc.hyps(1) [OF this rest r1(1) Suc.prems(3)]
  have r2: "length buffer' = 128" "n1 \<le> nli'" "cache s' = cache s1" "fs_device s' = fs_device s1"
    "\<forall>i<Suc k. buffer' ! i = b1 ! i"
    "\<forall>i. Suc k \<le> i \<and> i < 128 \<longrightarrow> (buffer' ! i \<noteq> 0) = (sz > int (base + i) * BLOCK_SECTOR_SIZE)"
    by simp_all
  have "(buffer' ! i \<noteq> 0) = (sz > int (base + i) * BLOCK_SECTOR_SIZE)" if "k \<le> i" "i < 128" for i
  proof (cases "i = k")
    case True
    then show ?thesis using r1(6) r2(5) by simp
  next
    case False
    then show ?thesis using r2(6) that by simp
  qed
  moreover have "\<forall>i<k. buffer' ! i = buffer ! i" using r1(5) r2(5) by simp
  ultimately show ?case using r1 r2 by simp
qed

lemma table_loop_settles:
  assumes "for_loop (table_step sz nbl base) [0..<128] (buffer, nli, s) = Inr (buffer', nli', s')"
    and "length buffer = 128" "0 \<notin> set nbl"
  shows "table_settled sz base buffer' \<and> nli \<le> nli' \<and> cache s' = cache s \<and>
         fs_device s' = fs_device s"
  using table_loop_result [OF assms] by (simp add: table_settled_def)

lemma table_loop_settled_noop:
  "\<forall>i\<in>set is. (buffer ! i \<noteq> 0) = (sz > int (base + i) * BLOCK_SECTOR_SIZE) \<Longrightarrow>
   for_loop (table_step sz nbl base) is (buffer, nli, s) = Inr (buffer, nli, s)"
  by (induction "is") (auto simp: table_step_def)

lemma cache_write_props:
  assumes "cache_ok s" "cache_write src sec s = Inr s'"
  shows "cache_ok s' \<and> logical s' = (logical s)(sec := src) \<and> free_map s' = free_map s"
  using cache_write_spec [OF assms(1), of src sec] assms(2) by auto

lemma cache_read_props:
  assumes "cache_ok s" "cache_read sec s = Inr (c, s')"
  shows "c = logical s sec \<and> cache_ok s' \<and> logical s' = logical s \<and> free_map s' = free_map s"
  using cache_read_spec [OF assms(1), of sec] assms(2) by auto

lemma logical_free_map_release [simp]: "logical (free_map_release x s) = logical s"
  by (rule ext) (simp add: logical_def free_map_release_def split: option.splits)

lemma cache_ok_free_map_release [simp]: "cache_ok (free_map_release x s) = cache_ok s"
  by (simp add: cache_ok_def free_map_release_def)

lemma length_zeros [simp]: "length zeros = 512"
  by (simp add: zeros_def)

lemma direct_step_result:
  assumes st: "direct_step sz nbl i (m, nli, s) = Inr (m', nli', s')"
    and i: "i < length (direct m)" and z: "0 \<notin> set nbl"
    and ok: "cache_ok s" and len: "\<forall>sec. length (logical s sec) = 512"
  shows "length (direct m') = length (direct m) \<and> nli \<le> nli' \<and> cache_ok s' \<and>
         (\<forall>sec. length (logical s' sec) = 512) \<and>
         indirect m' = indirect m \<and> indirect_double m' = indirect_double m \<and>
         (\<forall>j. j \<noteq> i \<longrightarrow> direct m' ! j = direct m ! j) \<and>
         ((direct m' ! i \<noteq> 0) = (sz > BLOCK_SECTOR_SIZE * int i)) \<and>
         (\<forall>sec. sec \<notin> set nbl \<longrightarrow> logical s' sec = logical s sec)"
proof -
  consider (shrink) "sz \<le> BLOCK_SECTOR_SIZE * int i" "direct m ! i \<noteq> 0"
    | (grow) "sz > BLOCK_SECTOR_SIZE * int i" "direct m ! i = 0"
    | (keep) "\<not> (sz \<le> BLOCK_SECTOR_SIZE * int i \<and> direct m ! i \<noteq> 0)"
             "\<not> (sz > BLOCK_SECTOR_SIZE * int i \<and> direct m ! i = 0)"
    by linarith
  then show ?thesis
  proof cases
    case shrink
    with st i ok len show ?thesis by (auto simp: direct_step_def)
  next
    case grow
    with st obtain v zs where g: "nli < length nbl" "v = nbl ! nli" "i < length nbl" "zs = nbl ! i"
      and w: "cache_write zeros zs s = Inr s'"
      and m': "m' = m\<lparr>direct := (direct m)[i := v]\<rparr>" and n': "nli' = nli + 1"
      by (auto simp: direct_step_def array_get_def split: if_splits sum.splits)
    from cache_write_props [OF ok w]
    have p: "cache_ok s'" "logical s' = (logical s)(zs := zeros)" by simp_all
    have "v \<noteq> 0" using g z by (metis nth_mem)
    moreover have "zs \<in> set nbl" using g by simp
    ultimately show ?thesis using grow m' n' p i len by auto
  next
    case keep
    with st have "m' = m" "nli' = nli" "s' = s" by (auto simp: direct_step_def)
    with keep ok len show ?thesis by auto
  qed
qed

lemma direct_loop_result:
  assumes "for_loop (direct_step sz nbl) [k..<12] (m, nli, s) = Inr (m', nli', s')"
    and "length (direct m) = 12" "0 \<notin> set nbl" "cache_ok s" "\<forall>sec. length (logical s sec) = 512"
  shows "length (direct m') = 12 \<and> nli \<le> nli' \<and> cache_ok s' \<and>
         (\<forall>sec. length (logical s' sec) = 512) \<and>
         indirect m' = indirect m \<and> indirect_double m' = indirect_double m \<and>
         (\<forall>i<k. direct m' ! i = direct m ! i) \<and>
         (\<forall>i. k \<le> i \<and> i < 12 \<longrightarrow> (direct m' ! i \<noteq> 0) = (sz > BLOCK_SECTOR_SIZE * int i)) \<and>
         (\<forall>sec. sec \<notin> set nbl \<longrightarrow> logical s' sec = logical s sec)"
  using assms
proof (induction "12 - k" arbitrary: k m nli s)
  case 0
  then show ?case by auto
next
  case (Suc n)
  then have k: "k < 12" by simp
  have up: "[k..<12] = k # [Suc k..<12]" using k by (simp add: upt_conv_Cons)
  from Suc.prems(1) obtain m1 n1 s1 where
    st: "direct_step sz nbl k (m, nli, s) = Inr (m1, n1, s1)"
    and rest: "for_loop (direct_step sz nbl) [Suc k..<12] (m1, n1, s1) = Inr (m', nli', s')"
    unfolding up by (auto split: sum.splits)
  have kl: "k < length (direct m)" using k Suc.prems(2) by simp
  from direct_step_result [OF st kl Suc.prems(3,4,5)] Suc.prems(2)
  have r1: "length (direct m1) = 12" "nli \<le> n1" "cache_ok s1" "\<forall>sec. length (logical s1 sec) = 512"
    "indirect m1 = indirect m" "indirect_double m1 = indirect_double m"
    "\<forall>j. j \<noteq> k \<longrightarrow> direct m1 ! j = direct m ! j"
    "(direct m1 ! k \<noteq> 0) = (sz > BLOCK_SECTOR_SIZE * int k)"
    "\<forall>sec. sec \<notin> set nbl \<longrightarrow> logical s1 sec = logical s sec"
    by simp_all
  have "n = 12 - Suc k" using Suc.hyps(2) by simp
  from Suc.hyps(1) [OF this rest r1(1) Suc.prems(3) r1(3,4)]
  have r2: "length (direct m') = 12" "n1 \<le> nli'" "cache_ok s'" "\<forall>sec. length (logical s' sec) = 512"
    "indirect m' = indirect m1" "indirect_double m' = indirect_double m1"
    "\<forall>i<Suc k. direct m' ! i = direct m1 ! i"
    "\<forall>i. Suc k \<le> i \<and> i < 12 \<longrightarrow> (direct m' ! i \<noteq> 0) = (sz > BLOCK_SECTOR_SIZE * int i)"
    "\<forall>sec. sec \<notin> set nbl \<longrightarrow> logical s' sec = logical s1 sec"
    by simp_all
  have "(direct m' ! i \<noteq> 0) = (sz > BLOCK_SECTOR_SIZE * int i)" if "k \<le> i" "i < 12" for i
  proof (cases "i = k")
    case True
    then show ?thesis using r1(8) r2(7) by simp
  next
    case False
    then show ?thesis using r2(8) that by simp
  qed
  moreover have "\<forall>i<k. direct m' ! i = direct m ! i" using r1(7) r2(7) by simp
  ultimately show ?case using r1 r2 by simp
qed

lemma direct_loop_settled_noop:
  "\<forall>i\<in>set is. (direct m ! i \<noteq> 0) = (sz > BLOCK_SECTOR_SIZE * int i) \<Longrightarrow>
   for_loop (direct_step sz nbl) is (m, nli, s) = Inr (m, nli, s)"
  by (induction "is") (auto simp: direct_step_def)

lemma length_words_of: "length (words_of c) = length c div 4"
  by (induction c rule: words_of.induct) simp_all

lemma same_cache_device:
  assumes "cache s' = cache s" "fs_device s' = fs_device s"
  shows "logical s' = logical s" "cache_ok s' = cache_ok s"
  using assms by (auto simp: logical_def fun_eq_iff cache_ok_def split: option.splits)

lemma length_bytes_of_settled: "table_settled sz base T \<Longrightarrow> length (bytes_of T) = 512"
  by (simp add: table_settled_def length_bytes_of)

lemma double_step_result:
  assumes st: "double_step sz nbl i (buffer1, nli, s) = Inr (b1, n1, s1)"
    and i: "i < length buffer1" and z: "0 \<notin> set nbl"
    and ok: "cache_ok s" and len: "\<forall>sec. length (logical s sec) = 512"
  shows "length b1 = length buffer1 \<and> nli \<le> n1 \<and> cache_ok s1 \<and>
         (\<forall>sec. length (logical s1 sec) = 512) \<and>
         (\<forall>j. j \<noteq> i \<longrightarrow> b1 ! j = buffer1 ! j) \<and>
         (if sz > int (140 + i) * BLOCK_SECTOR_SIZE
          then b1 ! i \<noteq> 0 \<and>
               (b1 ! i = buffer1 ! i \<or> (nli < length nbl \<and> b1 ! i = nbl ! nli \<and> nli < n1)) \<and>
               (\<exists>T. table_settled sz (140 + i * 128) T \<and>
                    logical s1 = (logical s)(b1 ! i := bytes_of T))
          else b1 ! i = 0 \<and> logical s1 = logical s)"
proof (cases "sz > int (140 + i) * BLOCK_SECTOR_SIZE")
  case False
  then show ?thesis
    using st i ok len by (auto simp: double_step_def split: if_splits)
next
  case True
  from st True obtain b1a buffer2 na sa where
    pre: "(if buffer1 ! i = 0
           then (case array_get nbl nli of Inl e \<Rightarrow> Inl e
                 | Inr v \<Rightarrow> Inr (buffer1[i := v], replicate 128 0, nli + 1, s))
           else (case cache_read (buffer1 ! i) s of Inl e \<Rightarrow> Inl e
                 | Inr (c, s') \<Rightarrow> Inr (buffer1, words_of c, nli, s')))
          = Inr (b1a, buffer2, na, sa)"
    by (auto simp: double_step_def split: if_splits sum.splits)
  with st True obtain buffer2' nb sb where
    inner: "for_loop (table_step sz nbl (140 + i * 128)) [0..<128] (buffer2, na, sa)
            = Inr (buffer2', nb, sb)"
    and w: "cache_write (bytes_of buffer2') (b1a ! i) sb = Inr s1"
    and e: "b1 = b1a" "n1 = nb"
    by (auto simp: double_step_def split: if_splits sum.splits)
  have p: "length b1a = length buffer1 \<and> nli \<le> na \<and> cache_ok sa \<and> logical sa = logical s \<and>
           length buffer2 = 128 \<and> (\<forall>j. j \<noteq> i \<longrightarrow> b1a ! j = buffer1 ! j) \<and> b1a ! i \<noteq> 0 \<and>
           (b1a ! i = buffer1 ! i \<or> (nli < length nbl \<and> b1a ! i = nbl ! nli \<and> nli < na))"
  proof (cases "buffer1 ! i = 0")
    case True
    with pre have g: "nli < length nbl" "b1a = buffer1[i := nbl ! nli]" "buffer2 = replicate 128 0"
      "na = nli + 1" "sa = s"
      by (auto simp: array_get_def split: if_splits)
    have "nbl ! nli \<noteq> 0" using g(1) z by (metis nth_mem)
    then show ?thesis using g i ok by simp
  next
    case False
    with pre obtain c where r: "cache_read (buffer1 ! i) s = Inr (c, sa)"
      and g: "b1a = buffer1" "buffer2 = words_of c" "na = nli"
      by (auto split: sum.splits)
    from cache_read_props [OF ok r]
    have "c = logical s (buffer1 ! i)" "cache_ok sa" "logical sa = logical s" by simp_all
    then show ?thesis using g False len by (simp add: length_words_of)
  qed
  from table_loop_settles [OF inner _ z] p
  have q: "table_settled sz (140 + i * 128) buffer2'" "na \<le> nb" "cache sb = cache sa"
    "fs_device sb = fs_device sa"
    by simp_all
  have sb: "logical sb = logical s" "cache_ok sb"
    using same_cache_device [OF q(3,4)] p by simp_all
  from cache_write_props [OF sb(2) w]
  have r: "cache_ok s1" "logical s1 = (logical s)(b1a ! i := bytes_of buffer2')"
    using sb(1) by simp_all
  have "\<forall>sec. length (logical s1 sec) = 512"
    using r(2) len length_bytes_of_settled [OF q(1)] by simp
  then show ?thesis
    using True p q(1,2) r e by auto
qed

lemma notin_drop_distinct:
  assumes "distinct xs" "i < n" "i < length xs"
  shows "xs ! i \<notin> set (drop n xs)"
proof
  assume "xs ! i \<in> set (drop n xs)"
  then obtain j where j: "j < length (drop n xs)" "drop n xs ! j = xs ! i"
    by (auto simp: in_set_conv_nth)
  then have "xs ! (n + j) = xs ! i" "n + j < length xs" by simp_all
  with assms show False by (simp add: nth_eq_iff_index_eq)
qed

lemma set_drop_mono: "m \<le> n \<Longrightarrow> set (drop n xs) \<subseteq> set (drop m xs)"
  by (simp add: set_drop_subset_set_drop)

lemma double_loop_result:
  assumes "for_loop (double_step sz nbl) [k..<128] (buffer1, nli, s) = Inr (buffer1', nli', s')"
    and "length buffer1 = 128" "0 \<notin> set nbl" "distinct nbl"
    and "cache_ok s" "\<forall>sec. length (logical s sec) = 512"
    and "distinct (filter (\<lambda>t. t \<noteq> 0) (drop k buffer1))"
    and "set (drop k buffer1) \<inter> set (drop nli nbl) = {}"
  shows "length buffer1' = 128 \<and> nli \<le> nli' \<and> cache_ok s' \<and>
         (\<forall>sec. length (logical s' sec) = 512) \<and>
         (\<forall>i<k. buffer1' ! i = buffer1 ! i) \<and>
         (\<forall>i. k \<le> i \<and> i < 128 \<longrightarrow>
            (if sz > int (140 + i) * BLOCK_SECTOR_SIZE
             then buffer1' ! i \<noteq> 0 \<and>
                  (\<exists>T. table_settled sz (140 + i * 128) T \<and>
                       logical s' (buffer1' ! i) = bytes_of T)
             else buffer1' ! i = 0)) \<and>
         (\<forall>sec. sec \<notin> set (drop k buffer1) \<and> sec \<notin> set (drop nli nbl) \<longrightarrow>
                logical s' sec = logical s sec) \<and>
         (\<forall>i. k \<le> i \<and> i < 128 \<longrightarrow>
            buffer1' ! i = 0 \<or> buffer1' ! i = buffer1 ! i \<or> buffer1' ! i \<in> set (drop nli nbl))"
  using assms
proof (induction "128 - k" arbitrary: k buffer1 nli s)
  case 0
  then show ?case by auto
next
  case (Suc n)
  then have k: "k < 128" by simp
  have up: "[k..<128] = k # [Suc k..<128]" using k by (simp add: upt_conv_Cons)
  from Suc.prems(1) obtain b1 n1 s1 where
    st: "double_step sz nbl k (buffer1, nli, s) = Inr (b1, n1, s1)"
    and rest: "for_loop (double_step sz nbl) [Suc k..<128] (b1, n1, s1) = Inr (buffer1', nli', s')"
    unfolding up by (auto split: sum.splits)
  have kl: "k < length buffer1" using k Suc.prems(2) by simp
  from double_step_result [OF st kl Suc.prems(3,5,6)] Suc.prems(2)
  have r1: "length b1 = 128" "nli \<le> n1" "cache_ok s1" "\<forall>sec. length (logical s1 sec) = 512"
    "\<forall>j. j \<noteq> k \<longrightarrow> b1 ! j = buffer1 ! j"
    and r1k: "if sz > int (140 + k) * BLOCK_SECTOR_SIZE
          then b1 ! k \<noteq> 0 \<and>
               (b1 ! k = buffer1 ! k \<or> (nli < length nbl \<and> b1 ! k = nbl ! nli \<and> nli < n1)) \<and>
               (\<exists>T. table_settled sz (140 + k * 128) T \<and>
                    logical s1 = (logical s)(b1 ! k := bytes_of T))
          else b1 ! k = 0 \<and> logical s1 = logical s"
    by simp_all
  have dr: "drop (Suc k) b1 = drop (Suc k) buffer1"
    using r1(1,5) Suc.prems(2) by (intro nth_equalityI) auto
  have dk: "drop k buffer1 = buffer1 ! k # drop (Suc k) buffer1"
    using kl by (simp add: Cons_nth_drop_Suc)
  have al1: "distinct (filter (\<lambda>t. t \<noteq> 0) (drop (Suc k) b1))"
    using Suc.prems(7) dr dk by (auto split: if_splits)
  have sub: "set (drop n1 nbl) \<subseteq> set (drop nli nbl)"
    using r1(2) by (rule set_drop_mono)
  have al2: "set (drop (Suc k) b1) \<inter> set (drop n1 nbl) = {}"
    using Suc.prems(8) dr dk sub by auto
  have "n = 128 - Suc k" using Suc.hyps(2) by simp
  from Suc.hyps(1) [OF this rest r1(1) Suc.prems(3,4) r1(3,4) al1 al2]
  have r2: "length buffer1' = 128" "n1 \<le> nli'" "cache_ok s'" "\<forall>sec. length (logical s' sec) = 512"
    "\<forall>i<Suc k. buffer1' ! i = b1 ! i"
    and r2i: "\<forall>i. Suc k \<le> i \<and> i < 128 \<longrightarrow>
            (if sz > int (140 + i) * BLOCK_SECTOR_SIZE
             then buffer1' ! i \<noteq> 0 \<and>
                  (\<exists>T. table_settled sz (140 + i * 128) T \<and>
                       logical s' (buffer1' ! i) = bytes_of T)
             else buffer1' ! i = 0)"
    and r2f: "\<forall>sec. sec \<notin> set (drop (Suc k) b1) \<and> sec \<notin> set (drop n1 nbl) \<longrightarrow>
                logical s' sec = logical s1 sec"
    and r2o: "\<forall>i. Suc k \<le> i \<and> i < 128 \<longrightarrow>
            buffer1' ! i = 0 \<or> buffer1' ! i = b1 ! i \<or> buffer1' ! i \<in> set (drop n1 nbl)"
    by simp_all
  have bk: "buffer1' ! k = b1 ! k" using r2(5) by simp
  have atk: "if sz > int (140 + k) * BLOCK_SECTOR_SIZE
             then buffer1' ! k \<noteq> 0 \<and>
                  (\<exists>T. table_settled sz (140 + k * 128) T \<and>
                       logical s' (buffer1' ! k) = bytes_of T)
             else buffer1' ! k = 0"
  proof (cases "sz > int (140 + k) * BLOCK_SECTOR_SIZE")
    case False
    then show ?thesis using r1k bk by simp
  next
    case True
    with r1k obtain T where nz: "b1 ! k \<noteq> 0"
      and src: "b1 ! k = buffer1 ! k \<or> (nli < length nbl \<and> b1 ! k = nbl ! nli \<and> nli < n1)"
      and T: "table_settled sz (140 + k * 128) T" "logical s1 = (logical s)(b1 ! k := bytes_of T)"
      by auto
    have n1: "b1 ! k \<notin> set (drop (Suc k) b1)"
    proof (cases "b1 ! k = buffer1 ! k")
      case True
      then show ?thesis using Suc.prems(7) dk dr nz by auto
    next
      case False
      with src have "b1 ! k \<in> set (drop nli nbl)"
        by (auto simp: in_set_conv_nth intro!: exI [of _ 0])
      then show ?thesis using Suc.prems(8) dk dr by auto
    qed
    have n2: "b1 ! k \<notin> set (drop n1 nbl)"
    proof (cases "b1 ! k = buffer1 ! k")
      case True
      then have "b1 ! k \<in> set (drop k buffer1)" using dk by simp
      then show ?thesis using Suc.prems(8) sub by auto
    next
      case False
      with src have "nli < length nbl" "b1 ! k = nbl ! nli" "nli < n1" by simp_all
      then show ?thesis using notin_drop_distinct [OF Suc.prems(4), of nli n1] by simp
    qed
    from r2f n1 n2 have "logical s' (b1 ! k) = logical s1 (b1 ! k)" by simp
    then show ?thesis using True nz T bk by auto
  qed
  have all: "\<forall>i. k \<le> i \<and> i < 128 \<longrightarrow>
            (if sz > int (140 + i) * BLOCK_SECTOR_SIZE
             then buffer1' ! i \<noteq> 0 \<and>
                  (\<exists>T. table_settled sz (140 + i * 128) T \<and>
                       logical s' (buffer1' ! i) = bytes_of T)
             else buffer1' ! i = 0)"
  proof (intro allI impI)
    fix i assume i: "k \<le> i \<and> i < 128"
    show "if sz > int (140 + i) * BLOCK_SECTOR_SIZE
             then buffer1' ! i \<noteq> 0 \<and>
                  (\<exists>T. table_settled sz (140 + i * 128) T \<and>
                       logical s' (buffer1' ! i) = bytes_of T)
             else buffer1' ! i = 0"
    proof (cases "i = k")
      case True
      then show ?thesis using atk by simp
    next
      case False
      then have "Suc k \<le> i \<and> i < 128" using i by simp
      then show ?thesis using r2i by blast
    qed
  qed
  have frame: "logical s' sec = logical s sec"
    if h: "sec \<notin> set (drop k buffer1) \<and> sec \<notin> set (drop nli nbl)" for sec
  proof -
    have a: "sec \<notin> set (drop (Suc k) b1)" using h dr dk by simp
    have b: "sec \<notin> set (drop n1 nbl)" using h sub by auto
    have c: "logical s1 sec = logical s sec"
    proof (cases "sz > int (140 + k) * BLOCK_SECTOR_SIZE")
      case False
      then show ?thesis using r1k by simp
    next
      case True
      with r1k obtain T where 
        src: "b1 ! k = buffer1 ! k \<or> (nli < length nbl \<and> b1 ! k = nbl ! nli \<and> nli < n1)"
        and T: "logical s1 = (logical s)(b1 ! k := bytes_of T)"
        by auto
      have "b1 ! k \<in> set (drop k buffer1) \<or> b1 ! k \<in> set (drop nli nbl)"
        using src dk by (auto simp: in_set_conv_nth intro!: exI [of _ 0])
      then have "sec \<noteq> b1 ! k" using h by auto
      then show ?thesis using T by simp
    qed
    from r2f a b c show ?thesis by simp
  qed
  have pre: "\<forall>i<k. buffer1' ! i = buffer1 ! i" using r1(5) r2(5) by simp
  have origin: "\<forall>i. k \<le> i \<and> i < 128 \<longrightarrow>
            buffer1' ! i = 0 \<or> buffer1' ! i = buffer1 ! i \<or> buffer1' ! i \<in> set (drop nli nbl)"
  proof (intro allI impI)
    fix i assume i: "k \<le> i \<and> i < 128"
    show "buffer1' ! i = 0 \<or> buffer1' ! i = buffer1 ! i \<or> buffer1' ! i \<in> set (drop nli nbl)"
    proof (cases "i = k")
      case True
      have "b1 ! k = 0 \<or> b1 ! k = buffer1 ! k \<or> b1 ! k \<in> set (drop nli nbl)"
        using r1k by (auto simp: in_set_conv_nth intro!: exI [of _ 0] split: if_splits)
      then show ?thesis using True bk by simp
    next
      case False
      then have "Suc k \<le> i \<and> i < 128" using i by simp
      with r2o have "buffer1' ! i = 0 \<or> buffer1' ! i = b1 ! i \<or> buffer1' ! i \<in> set (drop n1 nbl)"
        by blast
      then show ?thesis using False r1(5) sub by auto
    qed
  qed
  from r1(2) r2 pre all frame origin show ?case by simp
qed

lemma double_loop_settled_noop:
  assumes "cache_ok s"
    and "\<forall>i\<in>set is.
           (if sz > int (140 + i) * BLOCK_SECTOR_SIZE
            then buffer1 ! i \<noteq> 0 \<and>
                 (\<exists>T. table_settled sz (140 + i * 128) T \<and> logical s (buffer1 ! i) = bytes_of T)
            else buffer1 ! i = 0)"
  shows "\<exists>s'. for_loop (double_step sz nbl) is (buffer1, nli, s) = Inr (buffer1, nli, s') \<and>
              cache_ok s' \<and> logical s' = logical s \<and> free_map s' = free_map s"
  using assms
proof (induction "is" arbitrary: s)
  case Nil
  then show ?case by simp
next
  case (Cons i "is")
  have "\<exists>s1. double_step sz nbl i (buffer1, nli, s) = Inr (buffer1, nli, s1) \<and>
              cache_ok s1 \<and> logical s1 = logical s \<and> free_map s1 = free_map s"
  proof (cases "sz > int (140 + i) * BLOCK_SECTOR_SIZE")
    case False
    with Cons.prems show ?thesis by (simp add: double_step_def)
  next
    case True
    with Cons.prems(2) obtain T where nz: "buffer1 ! i \<noteq> 0"
      and T: "table_settled sz (140 + i * 128) T" "logical s (buffer1 ! i) = bytes_of T"
      by auto
    from cache_read_spec [OF Cons.prems(1), of "buffer1 ! i"]
    obtain s1 where r: "cache_read (buffer1 ! i) s = Inr (bytes_of T, s1)"
      and s1: "cache_ok s1" "logical s1 = logical s" "free_map s1 = free_map s"
      using T(2) by auto
    have inner: "for_loop (table_step sz nbl (140 + i * 128)) [0..<128] (T, nli, s1) = Inr (T, nli, s1)"
      using T(1) by (intro table_loop_settled_noop) (simp add: table_settled_def)
    from cache_write_spec [OF s1(1), of "bytes_of T" "buffer1 ! i"]
    obtain s2 where w: "cache_write (bytes_of T) (buffer1 ! i) s1 = Inr s2"
      and s2: "cache_ok s2" "logical s2 = (logical s1)(buffer1 ! i := bytes_of T)"
        "free_map s2 = free_map s1"
      by blast
    have "logical s2 = logical s" using s2(2) s1(2) T(2) by auto
    then show ?thesis
      using True nz r inner w s2 s1 by (simp add: double_step_def words_of_bytes_of)
  qed
  then obtain s1 where st: "double_step sz nbl i (buffer1, nli, s) = Inr (buffer1, nli, s1)"
    and s1: "cache_ok s1" "logical s1 = logical s" "free_map s1 = free_map s" by blast
  have "\<exists>s'. for_loop (double_step sz nbl) is (buffer1, nli, s1) = Inr (buffer1, nli, s') \<and>
              cache_ok s' \<and> logical s' = logical s1 \<and> free_map s' = free_map s1"
    using Cons.prems(2) s1 by (intro Cons.IH) auto
  then show ?case using st s1 by auto
qed

lemma resize_indirect_result:
  assumes run: "resize_indirect sz nbl (m1, i1, s1) = Inr (m2, i3, s4)"
    and z: "0 \<notin> set nbl" and ok: "cache_ok s1" and len: "\<forall>sec. length (logical s1 sec) = 512"
  shows "cache_ok s4 \<and> (\<forall>sec. length (logical s4 sec) = 512) \<and> i1 \<le> i3 \<and>
         m2 = m1\<lparr>indirect := indirect m2\<rparr> \<and> indirect m2 \<noteq> 0 \<and>
         (indirect m2 = indirect m1 \<or>
          (indirect m1 = 0 \<and> i1 < length nbl \<and> indirect m2 = nbl ! i1 \<and> i1 < i3)) \<and>
         (\<exists>T. table_settled sz 12 T \<and> logical s4 = (logical s1)(indirect m2 := bytes_of T))"
proof -
  from run obtain buffer i2 s2 where
    pre: "(if indirect m1 = 0
           then (case array_get nbl i1 of Inl e \<Rightarrow> Inl e
                 | Inr v \<Rightarrow> Inr (m1\<lparr>indirect := v\<rparr>, replicate 128 0, i1 + 1, s1))
           else (case cache_read (indirect m1) s1 of Inl e \<Rightarrow> Inl e
                 | Inr (c, s') \<Rightarrow> Inr (m1, words_of c, i1, s')))
          = Inr (m2, buffer, i2, s2)"
    by (auto simp: resize_indirect_def split: sum.splits)
  with run obtain buffer' s3 where
    loop: "for_loop (table_step sz nbl 12) [0..<128] (buffer, i2, s2) = Inr (buffer', i3, s3)"
    and w: "cache_write (bytes_of buffer') (indirect m2) s3 = Inr s4"
    by (auto simp: resize_indirect_def split: sum.splits)
  have p: "m2 = m1\<lparr>indirect := indirect m2\<rparr> \<and> i1 \<le> i2 \<and> cache_ok s2 \<and> logical s2 = logical s1 \<and>
           length buffer = 128 \<and> indirect m2 \<noteq> 0 \<and>
           (indirect m2 = indirect m1 \<or>
            (indirect m1 = 0 \<and> i1 < length nbl \<and> indirect m2 = nbl ! i1 \<and> i1 < i2))"
  proof (cases "indirect m1 = 0")
    case True
    with pre have g: "i1 < length nbl" "m2 = m1\<lparr>indirect := nbl ! i1\<rparr>" "buffer = replicate 128 0"
      "i2 = i1 + 1" "s2 = s1"
      by (auto simp: array_get_def split: if_splits)
    have "nbl ! i1 \<noteq> 0" using g(1) z by (metis nth_mem)
    then show ?thesis using g True ok by simp
  next
    case False
    with pre obtain c where r: "cache_read (indirect m1) s1 = Inr (c, s2)"
      and g: "m2 = m1" "buffer = words_of c" "i2 = i1"
      by (auto split: sum.splits)
    from cache_read_props [OF ok r]
    have "c = logical s1 (indirect m1)" "cache_ok s2" "logical s2 = logical s1" by simp_all
    then show ?thesis using g False len by (simp add: length_words_of)
  qed
  from table_loop_settles [OF loop _ z] p
  have q: "table_settled sz 12 buffer'" "i2 \<le> i3" "cache s3 = cache s2" "fs_device s3 = fs_device s2"
    by simp_all
  have s3: "logical s3 = logical s1" "cache_ok s3"
    using same_cache_device [OF q(3,4)] p by simp_all
  from cache_write_props [OF s3(2) w]
  have r: "cache_ok s4" "logical s4 = (logical s1)(indirect m2 := bytes_of buffer')"
    using s3(1) by simp_all
  have "\<forall>sec. length (logical s4 sec) = 512"
    using r(2) len length_bytes_of_settled [OF q(1)] by simp
  then show ?thesis
    using p q(1,2) r by auto
qed

lemma resize_double_result:
  assumes run: "resize_double sz nbl (m2, i3, s4) = Inr (m3, i5, s7)"
    and z: "0 \<notin> set nbl" and d: "distinct nbl"
    and ok: "cache_ok s4" and len: "\<forall>sec. length (logical s4 sec) = 512"
    and al: "indirect_double m2 \<noteq> 0 \<longrightarrow>
               distinct (filter (\<lambda>t. t \<noteq> 0) (words_of (logical s4 (indirect_double m2)))) \<and>
               set (words_of (logical s4 (indirect_double m2))) \<inter> set nbl = {} \<and>
               indirect_double m2 \<notin> set (words_of (logical s4 (indirect_double m2))) \<and>
               indirect_double m2 \<notin> set nbl"
  shows "cache_ok s7 \<and> m3 = m2\<lparr>indirect_double := indirect_double m3\<rparr> \<and>
         indirect_double m3 \<noteq> 0 \<and>
         (\<exists>TD. length TD = 128 \<and> logical s7 (indirect_double m3) = bytes_of TD \<and>
            (\<forall>i<128. if sz > int (140 + i) * BLOCK_SECTOR_SIZE
                     then TD ! i \<noteq> 0 \<and>
                          (\<exists>T. table_settled sz (140 + i * 128) T \<and>
                               logical s7 (TD ! i) = bytes_of T)
                     else TD ! i = 0)) \<and>
         (\<forall>sec. sec \<noteq> 0 \<and> sec \<notin> set (drop i3 nbl) \<and>
                (indirect_double m2 \<noteq> 0 \<longrightarrow>
                   sec \<noteq> indirect_double m2 \<and>
                   sec \<notin> set (words_of (logical s4 (indirect_double m2)))) \<longrightarrow>
                logical s7 sec = logical s4 sec)"
proof -
  from run obtain buffer1 i4 s5 where
    pre: "(if indirect_double m2 = 0
           then (case array_get nbl i3 of Inl e \<Rightarrow> Inl e
                 | Inr v \<Rightarrow> Inr (m2\<lparr>indirect_double := v\<rparr>, replicate 128 0, i3 + 1, s4))
           else (case cache_read (indirect_double m2) s4 of Inl e \<Rightarrow> Inl e
                 | Inr (c, s') \<Rightarrow> Inr (m2, words_of c, i3, s')))
          = Inr (m3, buffer1, i4, s5)"
    by (auto simp: resize_double_def split: sum.splits)
  with run obtain buffer1' s6 where
    loop: "for_loop (double_step sz nbl) [0..<128] (buffer1, i4, s5) = Inr (buffer1', i5, s6)"
    and w: "cache_write (bytes_of buffer1') (indirect_double m3) s6 = Inr s7"
    by (auto simp: resize_double_def split: sum.splits)
  let ?b = "indirect_double m3"
  have p: "m3 = m2\<lparr>indirect_double := ?b\<rparr> \<and> i3 \<le> i4 \<and> cache_ok s5 \<and> logical s5 = logical s4 \<and>
           length buffer1 = 128 \<and> ?b \<noteq> 0 \<and>
           distinct (filter (\<lambda>t. t \<noteq> 0) buffer1) \<and> set buffer1 \<inter> set (drop i4 nbl) = {} \<and>
           ?b \<notin> set (drop i4 nbl) \<and> ?b \<notin> set buffer1 \<and>
           (if indirect_double m2 = 0 then buffer1 = replicate 128 0 \<and> ?b \<in> set (drop i3 nbl)
            else buffer1 = words_of (logical s4 (indirect_double m2)) \<and> ?b = indirect_double m2)"
  proof (cases "indirect_double m2 = 0")
    case True
    with pre have g: "i3 < length nbl" "m3 = m2\<lparr>indirect_double := nbl ! i3\<rparr>"
      "buffer1 = replicate 128 0" "i4 = i3 + 1" "s5 = s4"
      by (auto simp: array_get_def split: if_splits)
    have nz: "nbl ! i3 \<noteq> 0" using g(1) z by (metis nth_mem)
    have "nbl ! i3 \<notin> set (drop (i3 + 1) nbl)"
      using notin_drop_distinct [OF d, of i3 "i3 + 1"] g(1) by simp
    moreover have "0 \<notin> set (drop (i3 + 1) nbl)" using z by (meson in_set_dropD)
    moreover have "nbl ! i3 \<in> set (drop i3 nbl)"
      using g(1) by (auto simp: in_set_conv_nth intro!: exI [of _ 0])
    ultimately show ?thesis using g True ok nz by auto
  next
    case False
    with pre obtain c where r: "cache_read (indirect_double m2) s4 = Inr (c, s5)"
      and g: "m3 = m2" "buffer1 = words_of c" "i4 = i3"
      by (auto split: sum.splits)
    from cache_read_props [OF ok r]
    have c: "c = logical s4 (indirect_double m2)" "cache_ok s5" "logical s5 = logical s4"
      by simp_all
    have "set buffer1 \<inter> set (drop i4 nbl) = {}" "indirect_double m2 \<notin> set (drop i4 nbl)"
      using al False g c(1) by (auto dest: in_set_dropD)
    then show ?thesis using g False len c al by (simp add: length_words_of)
  qed
  from double_loop_result [OF loop _ z d] p len
  have q: "length buffer1' = 128" "i4 \<le> i5" "cache_ok s6"
    and qi: "\<forall>i. i < 128 \<longrightarrow>
            (if sz > int (140 + i) * BLOCK_SECTOR_SIZE
             then buffer1' ! i \<noteq> 0 \<and>
                  (\<exists>T. table_settled sz (140 + i * 128) T \<and>
                       logical s6 (buffer1' ! i) = bytes_of T)
             else buffer1' ! i = 0)"
    and qf: "\<forall>sec. sec \<notin> set buffer1 \<and> sec \<notin> set (drop i4 nbl) \<longrightarrow>
                logical s6 sec = logical s4 sec"
    and qo: "\<forall>i. i < 128 \<longrightarrow>
            buffer1' ! i = 0 \<or> buffer1' ! i = buffer1 ! i \<or> buffer1' ! i \<in> set (drop i4 nbl)"
    by simp_all
  from cache_write_props [OF q(3) w]
  have r: "cache_ok s7" "logical s7 = (logical s6)(?b := bytes_of buffer1')" by simp_all
  have nb: "buffer1' ! i \<noteq> ?b" if "i < 128" "buffer1' ! i \<noteq> 0" for i
  proof -
    from qo that have "buffer1' ! i = buffer1 ! i \<or> buffer1' ! i \<in> set (drop i4 nbl)" by blast
    moreover have "buffer1 ! i \<in> set buffer1" using that p by simp
    ultimately show ?thesis using p by metis
  qed
  have tables: "\<forall>i<128. if sz > int (140 + i) * BLOCK_SECTOR_SIZE
                     then buffer1' ! i \<noteq> 0 \<and>
                          (\<exists>T. table_settled sz (140 + i * 128) T \<and>
                               logical s7 (buffer1' ! i) = bytes_of T)
                     else buffer1' ! i = 0"
  proof (intro allI impI)
    fix i :: nat assume i: "i < 128"
    show "if sz > int (140 + i) * BLOCK_SECTOR_SIZE
                     then buffer1' ! i \<noteq> 0 \<and>
                          (\<exists>T. table_settled sz (140 + i * 128) T \<and>
                               logical s7 (buffer1' ! i) = bytes_of T)
                     else buffer1' ! i = 0"
    proof (cases "sz > int (140 + i) * BLOCK_SECTOR_SIZE")
      case False
      then show ?thesis using qi i by simp
    next
      case True
      from qi i have "if sz > int (140 + i) * BLOCK_SECTOR_SIZE
             then buffer1' ! i \<noteq> 0 \<and>
                  (\<exists>T. table_settled sz (140 + i * 128) T \<and>
                       logical s6 (buffer1' ! i) = bytes_of T)
             else buffer1' ! i = 0" by blast
      with True obtain T where nz: "buffer1' ! i \<noteq> 0"
        and T: "table_settled sz (140 + i * 128) T" "logical s6 (buffer1' ! i) = bytes_of T"
        by auto
      have "logical s7 (buffer1' ! i) = bytes_of T"
        using nb [OF i nz] r(2) T(2) by simp
      then show ?thesis using True nz T(1) by auto
    qed
  qed
  have frame: "logical s7 sec = logical s4 sec"
    if h: "sec \<noteq> 0 \<and> sec \<notin> set (drop i3 nbl) \<and>
           (indirect_double m2 \<noteq> 0 \<longrightarrow>
              sec \<noteq> indirect_double m2 \<and>
              sec \<notin> set (words_of (logical s4 (indirect_double m2))))" for sec
  proof -
    have a: "sec \<notin> set buffer1" using h p by (auto split: if_splits)
    have b: "sec \<notin> set (drop i4 nbl)" using h p set_drop_mono [of i3 i4 nbl] by auto
    have c: "sec \<noteq> ?b" using h p by (auto split: if_splits)
    from qf a b have "logical s6 sec = logical s4 sec" by simp
    then show ?thesis using r(2) c by simp
  qed
  have "logical s7 ?b = bytes_of buffer1'" using r(2) by simp
  with r(1) p q(1) tables frame show ?thesis by blast
qed

section \<open>Resizing settled metadata changes nothing\<close>

lemma new_alloc_num_same [simp]: "new_alloc_num n n = 0"
  by (simp add: new_alloc_num_def)

lemma allocate_none [simp]: "free_map_allocate_non_consecutive 0 s = Some ([], s)"
  by (simp add: free_map_allocate_non_consecutive_def)

lemma resize_indirect_settled_noop:
  assumes ok: "cache_ok s" and nz: "indirect m \<noteq> 0"
    and T: "table_settled sz 12 T" "logical s (indirect m) = bytes_of T"
  shows "\<exists>s'. resize_indirect sz nbl (m, nli, s) = Inr (m, nli, s') \<and> cache_ok s' \<and>
              logical s' = logical s \<and> free_map s' = free_map s"
proof -
  from cache_read_spec [OF ok, of "indirect m"]
  obtain s1 where r: "cache_read (indirect m) s = Inr (bytes_of T, s1)"
    and s1: "cache_ok s1" "logical s1 = logical s" "free_map s1 = free_map s"
    using T(2) by auto
  have loop: "for_loop (table_step sz nbl 12) [0..<128] (T, nli, s1) = Inr (T, nli, s1)"
    using T(1) by (intro table_loop_settled_noop) (simp add: table_settled_def)
  from cache_write_spec [OF s1(1), of "bytes_of T" "indirect m"]
  obtain s2 where w: "cache_write (bytes_of T) (indirect m) s1 = Inr s2"
    and s2: "cache_ok s2" "logical s2 = (logical s1)(indirect m := bytes_of T)"
      "free_map s2 = free_map s1"
    by blast
  have "logical s2 = logical s" using s2(2) s1(2) T(2) by auto
  then show ?thesis
    using nz r loop w s2 s1 by (simp add: resize_indirect_def words_of_bytes_of)
qed

lemma resize_double_settled_noop:
  assumes ok: "cache_ok s" and nz: "indirect_double m \<noteq> 0"
    and TD: "logical s (indirect_double m) = bytes_of TD"
      "\<forall>i<128. if sz > int (140 + i) * BLOCK_SECTOR_SIZE
                    then TD ! i \<noteq> 0 \<and>
                         (\<exists>T. table_settled sz (140 + i * 128) T \<and>
                              logical s (TD ! i) = bytes_of T)
                    else TD ! i = 0"
  shows "\<exists>s'. resize_double sz nbl (m, nli, s) = Inr (m, nli, s') \<and> cache_ok s' \<and>
              logical s' = logical s \<and> free_map s' = free_map s"
proof -
  from cache_read_spec [OF ok, of "indirect_double m"]
  obtain s1 where r: "cache_read (indirect_double m) s = Inr (bytes_of TD, s1)"
    and s1: "cache_ok s1" "logical s1 = logical s" "free_map s1 = free_map s"
    using TD(1) by auto
  have "\<exists>s'. for_loop (double_step sz nbl) [0..<128] (TD, nli, s1) = Inr (TD, nli, s') \<and>
              cache_ok s' \<and> logical s' = logical s1 \<and> free_map s' = free_map s1"
    using TD(2) s1 by (intro double_loop_settled_noop) auto
  then obtain s2 where loop: "for_loop (double_step sz nbl) [0..<128] (TD, nli, s1) = Inr (TD, nli, s2)"
    and s2: "cache_ok s2" "logical s2 = logical s1" "free_map s2 = free_map s1" by blast
  from cache_write_spec [OF s2(1), of "bytes_of TD" "indirect_double m"]
  obtain s3 where w: "cache_write (bytes_of TD) (indirect_double m) s2 = Inr s3"
    and s3: "cache_ok s3" "logical s3 = (logical s2)(indirect_double m := bytes_of TD)"
      "free_map s3 = free_map s2"
    by blast
  have "logical s3 = logical s" using s3(2) s2(2) s1(2) TD(1) by auto
  then show ?thesis
    using nz r loop w s3 s2 s1 by (simp add: resize_double_def words_of_bytes_of)
qed

lemma inode_resize_settled_noop:
  assumes st: "settled m sz s" and ok: "cache_ok s"
  shows "\<exists>s'. inode_resize m sz s = Inr (True, m, s') \<and> cache_ok s' \<and>
              logical s' = logical s \<and> free_map s' = free_map s"
proof -
  from st have l: "length_d m = sz"
    and dir: "\<forall>i<12. (direct m ! i \<noteq> 0) = (sz > BLOCK_SECTOR_SIZE * int i)"
    by (simp_all add: settled_def)
  have ml: "m\<lparr>length_d := sz\<rparr> = m" using l by simp
  have dl: "for_loop (direct_step sz []) [0..<12] (m, 0, s) = Inr (m, 0, s)"
    using dir by (intro direct_loop_settled_noop) simp
  show ?thesis
  proof (cases "indirect m = 0 \<and> sz \<le> 12 * BLOCK_SECTOR_SIZE")
    case True
    then show ?thesis using l dl ml ok by (simp add: inode_resize_def)
  next
    case False
    with st obtain T where nz: "indirect m \<noteq> 0"
      and T: "table_settled sz 12 T" "logical s (indirect m) = bytes_of T"
      and dbl: "indirect_double m = 0 \<and> sz \<le> 140 * BLOCK_SECTOR_SIZE \<or>
        indirect_double m \<noteq> 0 \<and>
        (\<exists>TD. length TD = 128 \<and> logical s (indirect_double m) = bytes_of TD \<and>
           (\<forall>i<128. if sz > int (140 + i) * BLOCK_SECTOR_SIZE
                    then TD ! i \<noteq> 0 \<and>
                         (\<exists>T. table_settled sz (140 + i * 128) T \<and>
                              logical s (TD ! i) = bytes_of T)
                    else TD ! i = 0))"
      unfolding settled_def by blast
    from resize_indirect_settled_noop [OF ok nz T, of "[]" 0]
    obtain s1 where ri: "resize_indirect sz [] (m, 0, s) = Inr (m, 0, s1)"
      and s1: "cache_ok s1" "logical s1 = logical s" "free_map s1 = free_map s" by blast
    show ?thesis
    proof (cases "indirect_double m = 0 \<and> sz \<le> 140 * BLOCK_SECTOR_SIZE")
      case True
      then show ?thesis using False nz l dl ml ri s1 by (simp add: inode_resize_def)
    next
      case dd: False
      with dbl obtain TD where nz2: "indirect_double m \<noteq> 0"
        and TD: "logical s (indirect_double m) = bytes_of TD"
           "\<forall>i<128. if sz > int (140 + i) * BLOCK_SECTOR_SIZE
                    then TD ! i \<noteq> 0 \<and>
                         (\<exists>T. table_settled sz (140 + i * 128) T \<and>
                              logical s (TD ! i) = bytes_of T)
                    else TD ! i = 0"
        by blast
      have TD1: "logical s1 (indirect_double m) = bytes_of TD"
           "\<forall>i<128. if sz > int (140 + i) * BLOCK_SECTOR_SIZE
                    then TD ! i \<noteq> 0 \<and>
                         (\<exists>T. table_settled sz (140 + i * 128) T \<and>
                              logical s1 (TD ! i) = bytes_of T)
                    else TD ! i = 0"
        using TD unfolding s1(2) by blast+
      from resize_double_settled_noop [OF s1(1) nz2 TD1, of "[]" 0]
      obtain s2 where rd: "resize_double sz [] (m, 0, s1) = Inr (m, 0, s2)"
        and s2: "cache_ok s2" "logical s2 = logical s1" "free_map s2 = free_map s1" by blast
      show ?thesis using nz nz2 l dl ml ri rd s1 s2 by (simp add: inode_resize_def)
    qed
  qed
qed

section \<open>Resize settles the metadata\<close>

lemma resize_ready_double:
  assumes rr: "resize_ready m s" and nz: "indirect_double m \<noteq> 0"
  shows "distinct (filter (\<lambda>t. t \<noteq> 0) (words_of (logical s (indirect_double m))))"
    and "set (words_of (logical s (indirect_double m))) \<inter> set (free_map s) = {}"
    and "indirect_double m \<notin> set (words_of (logical s (indirect_double m)))"
    and "indirect_double m \<notin> set (free_map s)"
    and "indirect m \<noteq> 0 \<longrightarrow> indirect m \<noteq> indirect_double m \<and>
           indirect m \<notin> set (words_of (logical s (indirect_double m)))"
proof -
  let ?TD = "words_of (logical s (indirect_double m))"
  from rr nz have d: "distinct (index_sectors m s)"
    and i: "set (index_sectors m s) \<inter> set (free_map s) = {}" and z: "0 \<notin> set (free_map s)"
    by (simp_all add: resize_ready_def)
  have e: "index_sectors m s = (if indirect m \<noteq> 0 then [indirect m] else []) @
             indirect_double m # filter (\<lambda>t. t \<noteq> 0) ?TD"
    using nz by (simp add: index_sectors_def)
  show "distinct (filter (\<lambda>t. t \<noteq> 0) ?TD)" using d e by (auto split: if_splits)
  show "indirect_double m \<notin> set ?TD" using d e nz by (auto split: if_splits)
  show "indirect_double m \<notin> set (free_map s)" using i e by (auto split: if_splits)
  show "indirect m \<noteq> 0 \<longrightarrow> indirect m \<noteq> indirect_double m \<and> indirect m \<notin> set ?TD"
    using d e by (auto split: if_splits)
  show "set ?TD \<inter> set (free_map s) = {}"
  proof (rule ccontr)
    assume "set ?TD \<inter> set (free_map s) \<noteq> {}"
    then obtain x where x: "x \<in> set ?TD" "x \<in> set (free_map s)" by blast
    with z have "x \<noteq> 0" by metis
    with x(1) have "x \<in> set (index_sectors m s)" using e by (auto split: if_splits)
    with x(2) i show False by blast
  qed
qed

lemma resize_ready_indirect:
  assumes rr: "resize_ready m s" and nz: "indirect m \<noteq> 0"
  shows "indirect m \<notin> set (free_map s)"
proof -
  from rr have i: "set (index_sectors m s) \<inter> set (free_map s) = {}"
    by (simp add: resize_ready_def)
  have "indirect m \<in> set (index_sectors m s)" using nz by (simp add: index_sectors_def)
  with i show ?thesis by blast
qed

lemma inode_resize_settles:
  assumes rr: "resize_ready m s" and run: "inode_resize m sz s = Inr (True, m', s')"
  shows "settled m' sz s' \<and> cache_ok s'"
proof -
  let ?n = "new_alloc_num (bytes_to_blocks sz) (bytes_to_blocks (length_d m))"
  from run obtain nbl s0 where al: "free_map_allocate_non_consecutive ?n s = Some (nbl, s0)"
    by (auto simp: inode_resize_def Let_def split: option.splits)
  then have nbl: "nbl = take (unat ?n) (free_map s)"
    and s0: "s0 = s\<lparr>free_map := drop (unat ?n) (free_map s)\<rparr>"
    by (auto simp: free_map_allocate_non_consecutive_def split: if_splits)
  from rr have ok: "cache_ok s" and len: "\<forall>sec. length (logical s sec) = 512"
    and ld: "length (direct m) = 12" and df: "distinct (free_map s)"
    and zf: "0 \<notin> set (free_map s)"
    by (simp_all add: resize_ready_def)
  have sub: "set nbl \<subseteq> set (free_map s)" unfolding nbl by (rule set_take_subset)
  have z: "0 \<notin> set nbl" using zf sub by blast
  have d: "distinct nbl" unfolding nbl using df by simp
  have s0p: "logical s0 = logical s" "cache_ok s0"
    using same_cache_device [of s0 s] ok by (simp_all add: s0)
  from run al obtain m1 i1 s1 where
    dl: "for_loop (direct_step sz nbl) [0..<12] (m, 0, s0) = Inr (m1, i1, s1)"
    by (auto simp: inode_resize_def Let_def split: sum.splits)
  from direct_loop_result [OF dl ld z s0p(2)] len s0p(1)
  have r1: "length (direct m1) = 12" "cache_ok s1" "\<forall>sec. length (logical s1 sec) = 512"
    "indirect m1 = indirect m" "indirect_double m1 = indirect_double m"
    "\<forall>i<12. (direct m1 ! i \<noteq> 0) = (sz > BLOCK_SECTOR_SIZE * int i)"
    "\<forall>sec. sec \<notin> set nbl \<longrightarrow> logical s1 sec = logical s sec"
    by simp_all
  show ?thesis
  proof (cases "indirect m1 = 0 \<and> sz \<le> 12 * BLOCK_SECTOR_SIZE")
    case True
    with run al dl have "m' = m1\<lparr>length_d := sz\<rparr>" "s' = s1"
      by (simp_all add: inode_resize_def)
    then show ?thesis using r1 True by (simp add: settled_def)
  next
    case False
    with run al dl obtain m2 i3 s4 where
      ri: "resize_indirect sz nbl (m1, i1, s1) = Inr (m2, i3, s4)"
      by (auto simp: inode_resize_def split: sum.splits)
    from resize_indirect_result [OF ri z r1(2,3)]
    obtain T where r2: "cache_ok s4" "\<forall>sec. length (logical s4 sec) = 512"
      "m2 = m1\<lparr>indirect := indirect m2\<rparr>" "indirect m2 \<noteq> 0"
      and src: "indirect m2 = indirect m1 \<or>
          (indirect m1 = 0 \<and> i1 < length nbl \<and> indirect m2 = nbl ! i1 \<and> i1 < i3)"
      and T: "table_settled sz 12 T" "logical s4 = (logical s1)(indirect m2 := bytes_of T)"
      by blast
    have m2f: "direct m2 = direct m1" "indirect_double m2 = indirect_double m"
      using r2(3) r1(5) by (metis inode_disk.select_convs inode_disk.surjective inode_disk.update_convs)+
    let ?a = "indirect m2"
    have aT: "logical s4 ?a = bytes_of T" using T(2) by simp
    show ?thesis
    proof (cases "indirect_double m2 = 0 \<and> sz \<le> 140 * BLOCK_SECTOR_SIZE")
      case True
      with run al dl False ri have "m' = m2\<lparr>length_d := sz\<rparr>" "s' = s4"
        by (simp_all add: inode_resize_def)
      then show ?thesis using r1(6) r2 True T(1) aT m2f by (auto simp: settled_def)
    next
      case dd: False
      with run al dl False ri obtain m3 i5 s7 where
        rd: "resize_double sz nbl (m2, i3, s4) = Inr (m3, i5, s7)"
        and e: "m' = m3\<lparr>length_d := sz\<rparr>" "s' = s7"
        by (auto simp: inode_resize_def split: sum.splits)
      let ?b = "indirect_double m"
      let ?TD = "words_of (logical s ?b)"
      have a1: "?a \<notin> set (drop i3 nbl)"
      proof (cases "?a = indirect m1")
        case True
        then have "indirect m \<noteq> 0" using r2(4) r1(4) by simp
        from resize_ready_indirect [OF rr this] True r1(4) sub show ?thesis
          by (auto dest: in_set_dropD)
      next
        case False
        with src have "i1 < length nbl" "?a = nbl ! i1" "i1 < i3" by simp_all
        then show ?thesis using notin_drop_distinct [OF d, of i1 i3] by simp
      qed
      have a2: "?a \<noteq> ?b \<and> ?a \<notin> set ?TD" if nzb: "?b \<noteq> 0"
      proof (cases "?a = indirect m1")
        case True
        then have "indirect m \<noteq> 0" "?a = indirect m" using r2(4) r1(4) by simp_all
        then show ?thesis using resize_ready_double(5) [OF rr nzb] by simp
      next
        case False
        with src have "i1 < length nbl" "?a = nbl ! i1" by simp_all
        then have "?a \<in> set (free_map s)" using sub by auto
        then show ?thesis
          using resize_ready_double(2,4) [OF rr nzb] by auto
      qed
      have lb: "logical s4 ?b = logical s ?b" if nzb: "?b \<noteq> 0"
      proof -
        have "?b \<notin> set nbl" using resize_ready_double(4) [OF rr nzb] sub by blast
        then have "logical s1 ?b = logical s ?b" using r1(7) by simp
        then show ?thesis using T(2) a2 [OF nzb] by auto
      qed
      have ali: "indirect_double m2 \<noteq> 0 \<longrightarrow>
               distinct (filter (\<lambda>t. t \<noteq> 0) (words_of (logical s4 (indirect_double m2)))) \<and>
               set (words_of (logical s4 (indirect_double m2))) \<inter> set nbl = {} \<and>
               indirect_double m2 \<notin> set (words_of (logical s4 (indirect_double m2))) \<and>
               indirect_double m2 \<notin> set nbl"
      proof
        assume "indirect_double m2 \<noteq> 0"
        then have nzb: "?b \<noteq> 0" using m2f by simp
        show "distinct (filter (\<lambda>t. t \<noteq> 0) (words_of (logical s4 (indirect_double m2)))) \<and>
               set (words_of (logical s4 (indirect_double m2))) \<inter> set nbl = {} \<and>
               indirect_double m2 \<notin> set (words_of (logical s4 (indirect_double m2))) \<and>
               indirect_double m2 \<notin> set nbl"
          using resize_ready_double(1-4) [OF rr nzb] lb [OF nzb] m2f(2) sub by auto
      qed
      from resize_double_result [OF rd z d r2(1,2) ali]
      obtain TD where r3: "cache_ok s7" "m3 = m2\<lparr>indirect_double := indirect_double m3\<rparr>"
        "indirect_double m3 \<noteq> 0"
        and TD: "length TD = 128" "logical s7 (indirect_double m3) = bytes_of TD"
          "\<forall>i<128. if sz > int (140 + i) * BLOCK_SECTOR_SIZE
                     then TD ! i \<noteq> 0 \<and>
                          (\<exists>T. table_settled sz (140 + i * 128) T \<and>
                               logical s7 (TD ! i) = bytes_of T)
                     else TD ! i = 0"
        and fr: "\<forall>sec. sec \<noteq> 0 \<and> sec \<notin> set (drop i3 nbl) \<and>
                (indirect_double m2 \<noteq> 0 \<longrightarrow>
                   sec \<noteq> indirect_double m2 \<and>
                   sec \<notin> set (words_of (logical s4 (indirect_double m2)))) \<longrightarrow>
                logical s7 sec = logical s4 sec"
        by blast
      have "indirect_double m2 \<noteq> 0 \<longrightarrow>
              ?a \<noteq> indirect_double m2 \<and> ?a \<notin> set (words_of (logical s4 (indirect_double m2)))"
        using a2 lb m2f(2) by auto
      with fr r2(4) a1 have "logical s7 ?a = logical s4 ?a" by blast
      then have a7: "logical s7 ?a = bytes_of T" using aT by simp
      have m3f: "direct m3 = direct m1" "indirect m3 = ?a"
        using r3(2) m2f(1) by (metis inode_disk.select_convs inode_disk.surjective inode_disk.update_convs)+
      have "settled m' sz s'"
        unfolding settled_def using e r1(6) m3f r2(4) T(1) a7 r3(3) TD by auto
      then show ?thesis using r3(1) e by simp
    qed
  qed
qed

lemma inode_resize_failure:
  assumes run: "inode_resize m sz s = Inr (False, m', s')"
  shows "m' = m \<and> s' = s"
proof (cases "free_map_allocate_non_consecutive
                (new_alloc_num (bytes_to_blocks sz) (bytes_to_blocks (length_d m))) s")
  case None
  with run show ?thesis by (simp add: inode_resize_def)
next
  case (Some a)
  obtain nbl s0 where a: "a = (nbl, s0)" by (cases a)
  from run Some a show ?thesis
    by (auto simp: inode_resize_def split: sum.splits prod.splits if_splits)
qed

section \<open>The example states, evaluated\<close>

lemma find_cache_init: "find (holds sec) cache_init = None"
  by (simp add: find_None_iff cache_init_def holds_def new_cache_block_def)

lemma cache_ok_init:
  assumes "cache s = cache_init"
  shows "cache_ok s"
proof -
  have "cache_unique (cache s)" using assms cache_unique_init by simp
  moreover have "cache s \<noteq> []" using assms by (simp add: cache_init_def)
  moreover have "list_all (\<lambda>b. is_valid b \<and> \<not> is_dirty b \<longrightarrow> content b = fs_device s (bst b)) (cache s)"
    using assms by (simp add: cache_init_def new_cache_block_def list_all_iff)
  ultimately show ?thesis by (simp add: cache_ok_def)
qed

lemma logical_init:
  assumes "cache s = cache_init"
  shows "logical s sec = fs_device s sec"
  using assms by (simp add: logical_def find_cache_init)

lemma cache_ok_fs0: "cache_ok fs0"
  by (rule cache_ok_init) (simp add: fs0_def)

lemma cache_ok_fs_two: "cache_ok fs_two"
  by (rule cache_ok_init) (simp add: fs_two_def fs0_def)

lemma cache_ok_fs_200: "cache_ok fs_200"
  by (rule cache_ok_init) (simp add: fs_200_def fs0_def)

lemma inode_fs_two: "inode_disk_of (logical fs_two (sector ino5)) = file_two"
proof -
  have "logical fs_two (sector ino5) = bytes_of_inode_disk file_two"
    by (subst logical_init) (simp_all add: fs_two_def fs0_def ino5_def)
  moreover have "inode_disk_of (bytes_of_inode_disk file_two) = file_two"
    by (rule inode_disk_of_bytes) (simp_all add: file_two_def)
  ultimately show ?thesis by simp
qed

lemma inode_fs_200: "inode_disk_of (logical fs_200 (sector ino5)) = file_200"
proof -
  have "logical fs_200 (sector ino5) = bytes_of_inode_disk file_200"
    by (subst logical_init) (simp_all add: fs_200_def fs0_def ino5_def)
  moreover have "inode_disk_of (bytes_of_inode_disk file_200) = file_200"
    by (rule inode_disk_of_bytes) (simp_all add: file_200_def)
  ultimately show ?thesis by simp
qed

lemma table_fs_200: "words_of (logical fs_200 (indirect file_200)) = table_200"
proof -
  have "logical fs_200 (indirect file_200) = bytes_of table_200"
    by (subst logical_init) (simp_all add: fs_200_def fs0_def file_200_def)
  then show ?thesis by (simp add: words_of_bytes_of)
qed

lemma sectors_512: "bytes_to_sectors 512 = 1"
  by (simp add: bytes_to_sectors_def DIV_ROUND_UP_def BLOCK_SECTOR_SIZE_def)

lemma sectors_71680: "bytes_to_sectors 71680 = 140"
  by (simp add: bytes_to_sectors_def DIV_ROUND_UP_def BLOCK_SECTOR_SIZE_def)

lemma sectors_0: "bytes_to_sectors 0 = 0"
  by (simp add: bytes_to_sectors_def DIV_ROUND_UP_def BLOCK_SECTOR_SIZE_def)

lemma blocks_0: "bytes_to_blocks 0 = 1"
  by (simp add: bytes_to_blocks_def bytes_to_sectors_def DIV_ROUND_UP_def BLOCK_SECTOR_SIZE_def)

lemma blocks_512: "bytes_to_blocks 512 = 2"
  by (simp add: bytes_to_blocks_def bytes_to_sectors_def DIV_ROUND_UP_def BLOCK_SECTOR_SIZE_def)

lemma blocks_1024: "bytes_to_blocks 1024 = 3"
  by (simp add: bytes_to_blocks_def bytes_to_sectors_def DIV_ROUND_UP_def BLOCK_SECTOR_SIZE_def)

lemma blocks_5120: "bytes_to_blocks 5120 = 11"
  by (simp add: bytes_to_blocks_def bytes_to_sectors_def DIV_ROUND_UP_def BLOCK_SECTOR_SIZE_def)

lemma blocks_102400: "bytes_to_blocks 102400 = 203"
  by (simp add: bytes_to_blocks_def bytes_to_sectors_def DIV_ROUND_UP_def BLOCK_SECTOR_SIZE_def)


lemma blocks_6656: "bytes_to_blocks 6656 = 15"
  by (simp add: bytes_to_blocks_def bytes_to_sectors_def DIV_ROUND_UP_def BLOCK_SECTOR_SIZE_def)

lemma length_free_fs0: "length (free_map fs0) = 200"
  by (simp add: fs0_def)

lemma distinct_free_fs0: "distinct (free_map fs0) \<and> 0 \<notin> set (free_map fs0)"
proof -
  have u: "unat (of_nat x :: 32 word) = x" if "x \<in> {100..<300}" for x :: nat
  proof -
    from that have "x < 2 ^ 32" by simp
    then show ?thesis by (simp add: unat_of_nat)
  qed
  have inj: "inj_on (of_nat :: nat \<Rightarrow> 32 word) {100..<300}"
  proof (rule inj_onI)
    fix x y :: nat assume x: "x \<in> {100..<300}" and y: "y \<in> {100..<300}"
      and e: "(of_nat x :: 32 word) = of_nat y"
    from u [OF x] u [OF y] e show "x = y" by metis
  qed
  have d: "distinct (map (of_nat :: nat \<Rightarrow> 32 word) [100..<300])"
    unfolding distinct_map set_upt using inj distinct_upt by blast
  have z: "0 \<notin> set (map (of_nat :: nat \<Rightarrow> 32 word) [100..<300])"
  proof
    assume "0 \<in> set (map (of_nat :: nat \<Rightarrow> 32 word) [100..<300])"
    then obtain x :: nat where x: "x \<in> {100..<300}" and x0: "(0 :: 32 word) = of_nat x"
      unfolding set_map set_upt image_iff by blast
    have "unat (of_nat x :: 32 word) = 0" unfolding x0 [symmetric] by simp
    with u [OF x] have "x = 0" by metis
    with x show False by simp
  qed
  have fm: "free_map fs0 = map of_nat [100..<300]"
    unfolding fs0_def by (simp only: fs_state.simps)
  from d z show ?thesis unfolding fm by (rule conjI)
qed

lemma resize_ready_fs_stale: "resize_ready file_empty fs_stale"
proof -
  have c: "cache fs_stale = cache_init" by (simp add: fs_stale_def fs0_def)
  have "length (logical fs_stale sec) = 512" for sec
  proof -
    have "logical fs_stale sec = fs_device fs_stale sec" by (rule logical_init [OF c])
    moreover have "length (fs_device fs_stale sec) = 512"
      by (simp add: fs_stale_def fs0_def zeros_def)
    ultimately show ?thesis by simp
  qed
  moreover have "free_map fs_stale = free_map fs0" by (simp add: fs_stale_def)
  moreover have "index_sectors file_empty fs_stale = []"
    by (simp add: index_sectors_def file_empty_def)
  moreover have "length (direct file_empty) = 12" by (simp add: file_empty_def)
  ultimately show ?thesis
    using cache_ok_init [OF c] distinct_free_fs0
    by (simp add: resize_ready_def)
qed










section \<open>Offsets that translate to no slot, and requests the allocator refuses\<close>

lemma write_loop_zero:
  assumes "cache_ok s" "0 < sz" "bytes_to_sectors offset = 0"
  shows "write_loop inode buffer sz offset bytes_written s = Inl OutOfBounds"
  using assms by (subst write_loop.simps) (simp add: byte_to_sector_zero)

lemma read_loop_zero:
  assumes "cache_ok s" "0 < sz" "bytes_to_sectors offset = 0"
  shows "read_loop inode sz offset bytes_read buffer s = Inl OutOfBounds"
  using assms by (subst read_loop.simps) (simp add: byte_to_sector_zero)

lemma inode_resize_alloc_fail:
  assumes "length (free_map s) < unat (new_alloc_num (bytes_to_blocks sz) (bytes_to_blocks (length_d m)))"
  shows "inode_resize m sz s = Inr (False, m, s)"
  using assms by (simp add: inode_resize_def free_map_allocate_non_consecutive_def Let_def)

lemma find_block_returns:
  assumes "cache s \<noteq> []"
  shows "\<exists>s'. find_block_and_acq_lock sec r s = Inr s'"
  using assms
proof (cases rule: cache_cases [where P = "holds sec"])
  case (hit xs b ys)
  from find_block_hit [OF hit, of r] show ?thesis by blast
next
  case (miss xs b)
  from find_block_miss [OF miss, of r] show ?thesis by blast
qed

section \<open>Results\<close>

text \<open>
  C1. \<open>byte_to_sector\<close> does not use the zero-based sector index of the offset. In the
  two-sector file, byte 512 is the first byte of the second sector (direct pointer 1, sector
  21 by the zero-based translation), and \<open>byte_to_sector\<close> returns direct pointer 0,
  sector 20. In the 200-sector file, byte 71680 lies at the boundary of sector 140, which the
  double-indirect tables address (sector 528 by the zero-based translation), and
  \<open>byte_to_sector\<close> returns entry 127 of the single-indirect table, sector 527.
\<close>

theorem byte_to_sector_off_by_one:
  "(\<exists>s'. byte_to_sector ino5 512 fs_two = Inr (20, s')) \<and>
   translate_spec file_two [] (\<lambda>_. []) 512 = 21 \<and>
   (\<exists>s'. byte_to_sector ino5 71680 fs_200 = Inr (527, s')) \<and>
   table_200 ! 127 = 527 \<and>
   translate_spec file_200 table_200 (\<lambda>i. if i = 0 then table3_200 else []) 71680 = 528"
proof -
  have a: "\<exists>s'. byte_to_sector ino5 512 fs_two = Inr (20, s')"
    using byte_to_sector_direct [OF cache_ok_fs_two sectors_512 _ _ inode_fs_two]
    by (auto simp: file_two_def)
  have b: "translate_spec file_two [] (\<lambda>_. []) 512 = 21"
    by (simp add: translate_spec_def file_two_def)
  have e: "table_200 ! 127 = 527"
    by (simp add: table_200_def)
  have c: "\<exists>s'. byte_to_sector ino5 71680 fs_200 = Inr (527, s')"
    using byte_to_sector_indirect [OF cache_ok_fs_200 sectors_71680 _ _ inode_fs_200 table_fs_200] e
    by (auto simp: table_200_def)
  have d: "translate_spec file_200 table_200 (\<lambda>i. if i = 0 then table3_200 else []) 71680 = 528"
    by (simp add: translate_spec_def table3_200_def nth_append)
  from a b c d e show ?thesis by blast
qed

text \<open>
  C2. When the new length needs fewer sectors than the old one, the count \<open>inode_resize\<close>
  hands to the allocator is not the positive part of the difference (zero) but the difference
  wrapped around. Shrinking the two-sector file to one sector asks for 4294967295 sectors;
  the allocator refuses, \<open>inode_resize\<close> returns failure and leaves the metadata and the
  file system as they were, although a request for no sector at all is granted.
\<close>

theorem shrink_request_wraps:
  "new_alloc_num (bytes_to_blocks 512) (bytes_to_blocks (length_d file_two)) = 4294967295 \<and>
   inode_resize file_two 512 fs0 = Inr (False, file_two, fs0) \<and>
   free_map_allocate_non_consecutive 0 fs0 = Some ([], fs0)"
proof -
  have n: "new_alloc_num (bytes_to_blocks 512) (bytes_to_blocks (length_d file_two)) = 4294967295"
    by (simp add: file_two_def blocks_512 blocks_1024 new_alloc_num_def word_gt_0)
  have "inode_resize file_two 512 fs0 = Inr (False, file_two, fs0)"
    by (rule inode_resize_alloc_fail) (simp add: n length_free_fs0)
  moreover have "free_map_allocate_non_consecutive 0 fs0 = Some ([], fs0)"
    by (simp add: free_map_allocate_non_consecutive_def)
  ultimately show ?thesis using n by simp
qed

text \<open>
  C3. Shrinking the 200-sector file to 10 sectors (5120 bytes) does not succeed: the request
  wraps to 4294967104 sectors, the allocator refuses it, and \<open>inode_resize\<close> returns failure
  with no sector released and the length unchanged.
\<close>

theorem shrink_200_to_10_fails:
  "new_alloc_num (bytes_to_blocks 5120) (bytes_to_blocks (length_d file_200)) = 4294967104 \<and>
   inode_resize file_200 5120 fs_200 = Inr (False, file_200, fs_200)"
proof -
  have n: "new_alloc_num (bytes_to_blocks 5120) (bytes_to_blocks (length_d file_200)) = 4294967104"
    by (simp add: file_200_def blocks_5120 blocks_102400 new_alloc_num_def word_gt_0)
  have "inode_resize file_200 5120 fs_200 = Inr (False, file_200, fs_200)"
    by (rule inode_resize_alloc_fail) (simp add: n fs_200_def length_free_fs0)
  then show ?thesis using n by simp
qed

text \<open>
  C4. The first byte of a file can be neither written nor read: for offset 0
  \<open>byte_to_sector\<close> computes sector number 0 and reads \<open>direct[0 - 1]\<close>, outside the
  array. So a pattern written over a range that starts at 0 is not read back.
\<close>

theorem first_byte_unreachable:
  "inode_write_at ino5 [65] 1 0 fs_two = Inl OutOfBounds \<and>
   inode_read_at ino5 [0] 1 0 fs_two = Inl OutOfBounds"
proof -
  from cache_read_spec [OF cache_ok_fs_two, of "sector ino5"]
  obtain s1 where r: "cache_read (sector ino5) fs_two = Inr (logical fs_two (sector ino5), s1)"
    and ok1: "cache_ok s1" by blast
  have w: "write_loop ino5 [65] 1 0 0 s1 = Inl OutOfBounds"
    by (rule write_loop_zero [OF ok1 _ sectors_0]) simp
  have "inode_write_at ino5 [65] 1 0 fs_two = Inl OutOfBounds"
    using r w inode_fs_two
    by (simp add: inode_write_at_def Let_def file_two_def ino5_def)
  moreover have "inode_read_at ino5 [0] 1 0 fs_two = Inl OutOfBounds"
    unfolding inode_read_at_def
    by (rule read_loop_zero [OF cache_ok_fs_two _ sectors_0]) simp
  ultimately show ?thesis by simp
qed

lemma grow_one_to_two_sectors:
  "inode_resize file_one 1024 fs0 = Inl OutOfBounds"
proof -
  let ?s0 = "fs0\<lparr>free_map := drop 1 (free_map fs0)\<rparr>"
  have n: "new_alloc_num (bytes_to_blocks 1024) (bytes_to_blocks (length_d file_one)) = 1"
    by (simp add: file_one_def blocks_512 blocks_1024 new_alloc_num_def)
  have tk: "take 1 (free_map fs0) = [100]"
    by (simp add: fs0_def take_map upt_conv_Cons)
  have a: "free_map_allocate_non_consecutive 1 fs0 = Some ([100], ?s0)"
    using tk by (simp add: free_map_allocate_non_consecutive_def length_free_fs0)
  have s0: "direct_step 1024 [100] 0 (file_one, 0, ?s0) = Inr (file_one, 0, ?s0)"
    by (simp add: direct_step_def file_one_def BLOCK_SECTOR_SIZE_def)
  have s1: "direct_step 1024 [100] 1 (file_one, 0, ?s0) = Inl OutOfBounds"
    by (simp add: direct_step_def file_one_def BLOCK_SECTOR_SIZE_def array_get_def)
  have up: "[0..<12] = 0 # 1 # [2..<12]"
    by (simp add: upt_conv_Cons)
  have "for_loop (direct_step 1024 [100]) [0..<12] (file_one, 0, ?s0) = Inl OutOfBounds"
    unfolding up using s0 s1 by simp
  then show ?thesis
    using n a by (simp add: inode_resize_def Let_def)
qed

lemma grow_13_sectors:
  "\<exists>m' s'. inode_resize file_empty 6656 fs_stale = Inr (True, m', s') \<and> length_d m' = 6656 \<and>
      indirect m' = 112 \<and> words_of (logical s' 112) ! 0 = 113 \<and>
      logical s' 113 = replicate 512 255"
proof -
  let ?nbl = "take 14 (free_map fs_stale)"
  let ?s0 = "fs_stale\<lparr>free_map := drop 14 (free_map fs_stale)\<rparr>"
  have fl: "length (free_map fs_stale) = 200" by (simp add: fs_stale_def fs0_def)
  have nbl: "?nbl = [100, 101, 102, 103, 104, 105, 106, 107, 108, 109, 110, 111, 112, 113]"
    by (simp add: fs_stale_def fs0_def)
  have n: "new_alloc_num (bytes_to_blocks 6656) (bytes_to_blocks (length_d file_empty)) = 14"
    by (simp add: file_empty_def blocks_0 blocks_6656 new_alloc_num_def)
  have a: "free_map_allocate_non_consecutive 14 fs_stale = Some (?nbl, ?s0)"
    by (simp add: free_map_allocate_non_consecutive_def fl)
  have ok0: "cache_ok ?s0"
    by (rule cache_ok_init) (simp add: fs_stale_def fs0_def)
  have lg0: "logical ?s0 113 = replicate 512 255"
    by (subst logical_init) (simp_all add: fs_stale_def fs0_def)
  have "\<exists>m' s'. for_loop (direct_step 6656 ?nbl) [0..<12] (file_empty, 0, ?s0)
           = Inr (m', 0 + (12 - 0), s') \<and> cache_ok s' \<and> indirect m' = indirect file_empty \<and>
             indirect_double m' = indirect_double file_empty \<and> free_map s' = free_map ?s0 \<and>
             (\<forall>sec. (\<forall>i<12. 0 \<le> i \<longrightarrow> ?nbl ! i \<noteq> sec) \<longrightarrow> logical s' sec = logical ?s0 sec)"
    by (rule direct_loop_fresh [OF ok0]) (simp_all add: file_empty_def fl)
  then obtain m1 s1 where d: "for_loop (direct_step 6656 ?nbl) [0..<12] (file_empty, 0, ?s0)
           = Inr (m1, 12, s1)" and ok1: "cache_ok s1" and i1: "indirect m1 = 0"
    and dd1: "indirect_double m1 = 0"
    and fr: "\<forall>sec. (\<forall>i<12. ?nbl ! i \<noteq> sec) \<longrightarrow> logical s1 sec = logical ?s0 sec"
    by (auto simp: file_empty_def)
  have "\<forall>i<12. ?nbl ! i \<noteq> 113"
  proof (intro allI impI)
    fix i :: nat assume i: "i < 12"
    have "take 12 ?nbl ! i \<in> set (take 12 ?nbl)"
      by (rule nth_mem) (simp add: fl i)
    then have "?nbl ! i \<in> set (take 12 ?nbl)" using i by simp
    moreover have "113 \<notin> set (take 12 ?nbl)" unfolding nbl by simp
    ultimately show "?nbl ! i \<noteq> 113" by metis
  qed
  with fr lg0 have lg1: "logical s1 113 = replicate 512 255" by simp
  have g12: "array_get ?nbl 12 = Inr 112" unfolding nbl by (simp add: array_get_def)
  have g13: "array_get ?nbl 13 = Inr 113" unfolding nbl by (simp add: array_get_def)
  let ?buf = "(replicate 128 0)[0 := 113]"
  have up: "[0..<128] = 0 # [Suc 0..<128]" by (simp add: upt_conv_Cons)
  have st0: "table_step 6656 ?nbl 12 0 (replicate 128 0, 13, s1) = Inr (?buf, 14, s1)"
    using g13 by (simp add: table_step_def BLOCK_SECTOR_SIZE_def)
  have rest: "for_loop (table_step 6656 ?nbl 12) [Suc 0..<128] (?buf, 14, s1) = Inr (?buf, 14, s1)"
    by (rule table_loop_noop) auto
  have t: "for_loop (table_step 6656 ?nbl 12) [0..<128] (replicate 128 0, 13, s1) = Inr (?buf, 14, s1)"
    unfolding up using st0 rest by simp
  from cache_write_spec [OF ok1, of "bytes_of ?buf" 112]
  obtain s4 where w: "cache_write (bytes_of ?buf) 112 s1 = Inr s4"
    and lg4: "logical s4 = (logical s1)(112 := bytes_of ?buf)"
    by blast
  have r: "inode_resize file_empty 6656 fs_stale = Inr (True, m1\<lparr>indirect := 112, length_d := 6656\<rparr>, s4)"
    using n a d i1 dd1 g12 t w
    by (simp add: inode_resize_def resize_indirect_def Let_def BLOCK_SECTOR_SIZE_def)
  have "words_of (logical s4 112) ! 0 = 113"
    using lg4 by (simp add: words_of_bytes_of)
  moreover have "logical s4 113 = replicate 512 255"
    using lg4 lg1 by simp
  ultimately show ?thesis using r by simp
qed

text \<open>
  C5. A data sector assigned on growth is not zero-filled. Growing the empty inode to 13
  sectors (6656 bytes) succeeds; the 13th data sector, entry 0 of the single-indirect table
  at sector 112, is sector 113, and read through the cache it still holds the stale bytes
  255: the loops over the index tables zero-fill nothing. In the loop over the direct
  pointers the sector zero-filled is \<open>new_block_list[i]\<close>, not the sector assigned: growing
  the one-sector file to two sectors assigns \<open>new_block_list[0]\<close> and reads
  \<open>new_block_list[1]\<close>, outside the batch of one sector.
\<close>

theorem grow_sector_not_zero_filled:
  "(\<exists>m' s'. inode_resize file_empty 6656 fs_stale = Inr (True, m', s') \<and> length_d m' = 6656 \<and>
      indirect m' = 112 \<and> words_of (logical s' 112) ! 0 = 113 \<and>
      logical s' 113 = replicate 512 255) \<and>
   inode_resize file_one 1024 fs0 = Inl OutOfBounds"
  using grow_13_sectors grow_one_to_two_sectors by blast

text \<open>
  C6. For 141 data sectors (72192 bytes) \<open>bytes_to_blocks\<close> returns 144, where the count the
  specification gives, and the number of sectors such a file occupies, is 145: the source
  rounds the number of second-level index sectors down.
\<close>

theorem bytes_to_blocks_141_sectors:
  "bytes_to_sectors 72192 = 141 \<and> bytes_to_blocks 72192 = 144 \<and> block_count_spec 72192 = 145"
  by (simp add: bytes_to_blocks_def bytes_to_sectors_def DIV_ROUND_UP_def BLOCK_SECTOR_SIZE_def
      block_count_spec_def)

text \<open>
  C7. With a deny-write count above zero, \<open>inode_write_at\<close> returns 0 bytes written and the
  file system (cache, device and free map, hence contents, length and pointers of every
  inode) is the one it was given.
\<close>

theorem write_denied:
  "0 < deny_write_cnt inode \<Longrightarrow> inode_write_at inode buffer sz offset s = Inr (0, s)"
  by (simp add: inode_write_at_def)

theorem write_denied_witness:
  "0 < deny_write_cnt ino5_denied \<and> inode_write_at ino5_denied [65, 66, 67] 3 0 fs_two = Inr (0, fs_two)"
proof -
  have h: "0 < deny_write_cnt ino5_denied" by (simp add: ino5_denied_def)
  show ?thesis using h write_denied [OF h, of "[65, 66, 67]" 3 0 fs_two] by simp
qed



text \<open>
  Where the first call stays inside its batch and returns, on metadata and a file system in
  working order, a second call to the same length returns the same flag and changes neither
  the metadata, nor the free map, nor the contents of any sector.
\<close>

lemma inode_resize_again_noop:
  assumes rr: "resize_ready m s" and run: "inode_resize m sz s = Inr (ok, m', s')"
  shows "\<exists>s''. inode_resize m' sz s' = Inr (ok, m', s'') \<and> free_map s'' = free_map s' \<and>
               logical s'' = logical s'"
proof (cases ok)
  case True
  with run have "inode_resize m sz s = Inr (True, m', s')" by simp
  from inode_resize_settles [OF rr this]
  have "settled m' sz s'" "cache_ok s'" by simp_all
  from inode_resize_settled_noop [OF this] True show ?thesis by auto
next
  case False
  with run have "inode_resize m sz s = Inr (False, m', s')" by simp
  from inode_resize_failure [OF this] have "m' = m" "s' = s" by simp_all
  with run show ?thesis by simp
qed


text \<open>
  C9. At most one cache slot is valid for any sector \<open>S\<close>: this is \<open>cache_unique\<close>; it holds
  of the 64 slots \<open>cache_init\<close> sets up, and the lookup with hit promotion or miss eviction
  and refill, \<open>cache_read\<close> and \<open>cache_write\<close> return on every cache that has slots, keep it
  and keep the number of slots.
\<close>

theorem cache_slot_uniqueness:
  "(cache_unique c \<longleftrightarrow> (\<forall>S. length (filter (holds S) c) \<le> 1)) \<and>
   cache_unique cache_init \<and> length cache_init = 64 \<and>
   (cache_unique (cache s) \<and> cache s \<noteq> [] \<longrightarrow>
      (\<exists>s1. find_block_and_acq_lock sec reader s = Inr s1 \<and> cache_unique (cache s1) \<and>
            length (cache s1) = length (cache s)) \<and>
      (\<exists>d s2. cache_read sec s = Inr (d, s2) \<and> cache_unique (cache s2) \<and>
            length (cache s2) = length (cache s)) \<and>
      (\<exists>s3. cache_write src sec s = Inr s3 \<and> cache_unique (cache s3) \<and>
            length (cache s3) = length (cache s)))"
proof -
  have ops: "(\<exists>s1. find_block_and_acq_lock sec reader s = Inr s1 \<and> cache_unique (cache s1) \<and>
            length (cache s1) = length (cache s)) \<and>
      (\<exists>d s2. cache_read sec s = Inr (d, s2) \<and> cache_unique (cache s2) \<and>
            length (cache s2) = length (cache s)) \<and>
      (\<exists>s3. cache_write src sec s = Inr s3 \<and> cache_unique (cache s3) \<and>
            length (cache s3) = length (cache s))"
    if un: "cache_unique (cache s)" and ne: "cache s \<noteq> []"
  proof -
    from find_block_returns [OF ne, of sec reader]
    obtain s1 where f: "find_block_and_acq_lock sec reader s = Inr s1" by blast
    from find_block_returns [OF ne, of sec True]
    obtain s2 where r: "find_block_and_acq_lock sec True s = Inr s2" by blast
    from find_block_returns [OF ne, of sec False]
    obtain s3 where w: "find_block_and_acq_lock sec False s = Inr s3" by blast
    have rd: "cache_read sec s = Inr (content (hd (cache s2)), s2)"
      using r by (simp add: cache_read_def)
    let ?s3 = "s3\<lparr>cache := (hd (cache s3))\<lparr>content := src, is_dirty := True\<rparr> # tl (cache s3)\<rparr>"
    have wr: "cache_write src sec s = Inr ?s3"
      using w by (simp add: cache_write_def)
    show ?thesis
      using find_block_unique [OF un f] cache_read_unique [OF un rd] cache_write_unique [OF un wr]
        f rd wr by blast
  qed
  have "length cache_init = 64" by (simp add: cache_init_def)
  with ops cache_unique_iff [of c] cache_unique_init show ?thesis by blast
qed

theorem cache_slot_uniqueness_witness:
  "cache_unique (cache fs0) \<and> cache fs0 \<noteq> [] \<and>
   (\<exists>s1. find_block_and_acq_lock 7 True fs0 = Inr s1 \<and> cache_unique (cache s1) \<and>
         length (cache s1) = 64) \<and>
   (\<exists>d s2. cache_read 7 fs0 = Inr (d, s2) \<and> cache_unique (cache s2) \<and> length (cache s2) = 64) \<and>
   (\<exists>s3. cache_write zeros 7 fs0 = Inr s3 \<and> cache_unique (cache s3) \<and> length (cache s3) = 64)"
proof -
  have u: "cache_unique (cache fs0)" by (simp add: fs0_def cache_unique_init)
  have n: "cache fs0 \<noteq> []" by (simp add: fs0_def cache_init_def)
  have l: "length (cache fs0) = 64" by (simp add: fs0_def cache_init_def)
  show ?thesis
    using u n l cache_slot_uniqueness [of cache_init fs0 7 True zeros] by simp
qed

text \<open>
  C10. For offset 0 of the two-sector file, an offset below the stored length,
  \<open>byte_to_sector\<close> reads the direct array at index \<open>0 - 1\<close>, which is out of bounds.
\<close>

theorem byte_to_sector_offset_zero:
  "byte_to_sector ino5 0 fs_two = Inl OutOfBounds \<and> 0 < length_d file_two"
  using byte_to_sector_zero [OF cache_ok_fs_two sectors_0, of ino5]
  by (simp add: file_two_def)

end
